theory Spec2Isabelle
  imports Complex_Main "HOL-Library.AList" "HOL-Library.Word"
begin

section \<open>Exceptions\<close>

text \<open>
  The exceptions that the code of \<^verbatim>\<open>models.py\<close> and the library calls it makes can
  raise. A raise is the left injection of a sum.
\<close>

datatype error =
    IndexError
  | ValueError
  | KeyError
  | AttributeError
  | NetworkXError
  | NetworkXNoPath

section \<open>The graph object\<close>

text \<open>
  An \<^verbatim>\<open>nx.Graph\<close> keeps a dictionary \<^verbatim>\<open>adj\<close> from each node to the dictionary of its
  neighbours. The embedding keeps the keys of both dictionaries, in insertion order, as
  an association list from a node to the list of its neighbours. The attribute
  dictionaries of the edges are not kept in the graph: the one attribute that is read,
  the weight by which Kruskal's algorithm sorts the edges, is given beside the graph as
  a function of the edge. The operations are those of NetworkX 1.x,
  which \<^verbatim>\<open>models.py\<close> is written for: \<^verbatim>\<open>edges()\<close> returns a list (\<^verbatim>\<open>T.edges()[0]\<close>) and
  \<^verbatim>\<open>degree()\<close> a dictionary.
\<close>

type_synonym 'v graph = "('v \<times> 'v list) list"

definition nodes :: "'v graph \<Rightarrow> 'v list" where
  "nodes g = map fst g"

text \<open>\<^verbatim>\<open>G[u]\<close>: the neighbours of a node, \<^verbatim>\<open>KeyError\<close> for a node that is not in the graph.\<close>

definition getitem :: "'v graph \<Rightarrow> 'v \<Rightarrow> error + 'v list" where
  "getitem g u = (case map_of g u of None \<Rightarrow> Inl KeyError | Some ns \<Rightarrow> Inr ns)"

text \<open>\<^verbatim>\<open>try: return v in self.adj[u]; except KeyError: return False\<close>\<close>

definition has_edge :: "'v graph \<Rightarrow> 'v \<Rightarrow> 'v \<Rightarrow> bool" where
  "has_edge g u v = (case map_of g u of None \<Rightarrow> False | Some ns \<Rightarrow> v \<in> set ns)"

text \<open>\<^verbatim>\<open>if u not in self.node: self.adj[u] = {}\<close>\<close>

definition add_node :: "'v graph \<Rightarrow> 'v \<Rightarrow> 'v graph" where
  "add_node g u = (if map_of g u = None then g @ [(u, [])] else g)"

text \<open>\<^verbatim>\<open>d[v] = ...\<close> on the keys of a dictionary: a new key goes to the end.\<close>

definition setkey :: "'v list \<Rightarrow> 'v \<Rightarrow> 'v list" where
  "setkey ns v = (if v \<in> set ns then ns else ns @ [v])"

text \<open>\<^verbatim>\<open>self.adj[u][v] = datadict\<close>, for a node \<open>u\<close> that \<^verbatim>\<open>add_edge\<close> has made present.\<close>

definition set_adj :: "'v graph \<Rightarrow> 'v \<Rightarrow> 'v \<Rightarrow> 'v graph" where
  "set_adj g u v =
     (case map_of g u of
        None \<Rightarrow> AList.update u [v] g
      | Some ns \<Rightarrow> AList.update u (setkey ns v) g)"

definition add_edge :: "'v graph \<Rightarrow> 'v \<Rightarrow> 'v \<Rightarrow> 'v graph" where
  "add_edge g u v = set_adj (set_adj (add_node (add_node g u) v) u v) v u"

text \<open>
  \<^verbatim>\<open>remove_edge\<close> deletes \<^verbatim>\<open>adj[u][v]\<close> and, unless the edge is a self-loop,
  \<^verbatim>\<open>adj[v][u]\<close>; a \<^verbatim>\<open>KeyError\<close> of either deletion is raised as \<^verbatim>\<open>NetworkXError\<close>.
\<close>

definition del_adj :: "'v graph \<Rightarrow> 'v \<Rightarrow> 'v \<Rightarrow> error + 'v graph" where
  "del_adj g u v =
     (case map_of g u of
        None \<Rightarrow> Inl NetworkXError
      | Some ns \<Rightarrow>
          if v \<in> set ns then Inr (AList.update u (removeAll v ns) g)
          else Inl NetworkXError)"

definition remove_edge :: "'v graph \<Rightarrow> 'v \<Rightarrow> 'v \<Rightarrow> error + 'v graph" where
  "remove_edge g u v =
     (case del_adj g u v of
        Inl e \<Rightarrow> Inl e
      | Inr g1 \<Rightarrow> if u \<noteq> v then del_adj g1 v u else Inr g1)"

text \<open>
  \<^verbatim>\<open>edges()\<close> lists each edge once: the adjacency is walked node by node, and a
  neighbour that was walked before is skipped.
\<close>

fun edges_iter :: "'v list \<Rightarrow> 'v graph \<Rightarrow> ('v \<times> 'v) list" where
  "edges_iter seen [] = []"
| "edges_iter seen ((n, nbrs) # rest) =
     map (Pair n) (filter (\<lambda>nbr. nbr \<notin> set seen) nbrs) @ edges_iter (n # seen) rest"

definition edges :: "'v graph \<Rightarrow> ('v \<times> 'v) list" where
  "edges g = edges_iter [] g"

text \<open>\<^verbatim>\<open>degree()\<close>: the number of neighbours, a self-loop counted twice.\<close>

definition degree :: "'v graph \<Rightarrow> ('v \<times> nat) list" where
  "degree g = map (\<lambda>(n, nbrs). (n, length nbrs + (if n \<in> set nbrs then 1 else 0))) g"

section \<open>Library searches\<close>

text \<open>
  \<^verbatim>\<open>nx.shortest_path(G, source, target)\<close> is NetworkX's: it returns the list of the nodes
  of a shortest path from \<open>source\<close> to \<open>target\<close>, \<^verbatim>\<open>[source]\<close> when the two are the
  same node, and raises when it finds no path. The embedding enumerates the paths
  without a repeated node by growing length and returns the first that ends at the
  target; a path without a repeated node has at most as many nodes as the graph. Which
  of several shortest paths the library returns depends on its dictionary order; in a
  tree there is one. Every failure of the library's search (an endpoint that is not a
  node, no connection) is the one error \<open>NetworkXNoPath\<close> here.
\<close>

fun simple_paths :: "'v graph \<Rightarrow> 'v \<Rightarrow> nat \<Rightarrow> 'v list list" where
  "simple_paths g s 0 = [[s]]"
| "simple_paths g s (Suc n) =
     concat (map (\<lambda>p. map (\<lambda>w. p @ [w])
                   (filter (\<lambda>w. w \<notin> set p)
                      (case map_of g (last p) of None \<Rightarrow> [] | Some ns \<Rightarrow> ns)))
               (simple_paths g s n))"

definition shortest_path :: "'v graph \<Rightarrow> 'v \<Rightarrow> 'v \<Rightarrow> error + 'v list" where
  "shortest_path g s t =
     (if s = t then Inr [s]
      else case filter (\<lambda>p. last p = t) (concat (map (simple_paths g s) [1..<length g])) of
             [] \<Rightarrow> Inl NetworkXNoPath
           | p # _ \<Rightarrow> Inr p)"

text \<open>
  \<^verbatim>\<open>nx.shortest_path_length(G, source)\<close> is NetworkX's breadth-first search by levels:
  \<^verbatim>\<open>
    seen={}; level=0; nextlevel={source:1}
    while nextlevel:
        thislevel=nextlevel; nextlevel={}
        for v in thislevel:
            if v not in seen:
                seen[v]=level
                nextlevel.update(G[v])
        level=level+1
    return seen
  \<close>
\<close>

definition dict_update :: "'v list \<Rightarrow> 'v list \<Rightarrow> 'v list" where
  "dict_update d ks = fold (\<lambda>k acc. setkey acc k) ks d"

fun visit_level ::
  "'v graph \<Rightarrow> nat \<Rightarrow> 'v list \<Rightarrow> ('v \<times> nat) list \<Rightarrow> 'v list \<Rightarrow> error + ('v \<times> nat) list \<times> 'v list"
where
  "visit_level g level [] seen nextlevel = Inr (seen, nextlevel)"
| "visit_level g level (v # vs) seen nextlevel =
     (if v \<in> fst ` set seen then visit_level g level vs seen nextlevel
      else case getitem g v of
             Inl e \<Rightarrow> Inl e
           | Inr ns \<Rightarrow> visit_level g level vs (seen @ [(v, level)]) (dict_update nextlevel ns))"

lemma visit_level_mono:
  "visit_level g level vs seen nl = Inr (seen', nl') \<Longrightarrow> fst ` set seen \<subseteq> fst ` set seen'"
  by (induction g level vs seen nl rule: visit_level.induct)
     (auto split: if_splits sum.splits)

lemma visit_level_progress:
  "visit_level g level vs seen nl = Inr (seen', nl') \<Longrightarrow>
     (seen' = seen \<and> nl' = nl) \<or> (\<exists>v \<in> fst ` set g. v \<notin> fst ` set seen \<and> v \<in> fst ` set seen')"
proof (induction g level vs seen nl rule: visit_level.induct)
  case (1 g level seen nextlevel)
  then show ?case by simp
next
  case (2 g level v vs seen nextlevel)
  show ?case
  proof (cases "v \<in> fst ` set seen")
    case True
    with 2 show ?thesis by simp
  next
    case False
    with "2.prems" obtain ns where ns: "getitem g v = Inr ns"
      and rest: "visit_level g level vs (seen @ [(v, level)]) (dict_update nextlevel ns) = Inr (seen', nl')"
      by (auto split: sum.splits)
    from ns have "v \<in> fst ` set g"
      by (auto simp: getitem_def split: option.splits dest: map_of_SomeD intro: rev_image_eqI)
    moreover from visit_level_mono[OF rest] have "v \<in> fst ` set seen'" by auto
    ultimately show ?thesis using False by blast
  qed
qed

text \<open>
  The \<^verbatim>\<open>while nextlevel\<close> loop. It ends: a level either marks a node of the graph
  that was not seen before, or leaves the next level empty.
\<close>

function bfs_levels ::
  "'v graph \<Rightarrow> ('v \<times> nat) list \<Rightarrow> nat \<Rightarrow> 'v list \<Rightarrow> error + ('v \<times> nat) list"
where
  "bfs_levels g seen level nextlevel =
     (if nextlevel = [] then Inr seen
      else case visit_level g level nextlevel seen [] of
             Inl e \<Rightarrow> Inl e
           | Inr (seen', nextlevel') \<Rightarrow> bfs_levels g seen' (level + 1) nextlevel')"
  by pat_completeness auto
termination
proof (relation "measure (\<lambda>(g, seen, level, nl).
          2 * card (fst ` set g - fst ` set seen) + (if nl = [] then 0 else 1))", goal_cases)
  case 1
  then show ?case by simp
next
  case (2 g seen level nextlevel x2 seen' nl')
  then have v: "visit_level g level nextlevel seen [] = Inr (seen', nl')" by simp
  from visit_level_progress[OF v] show ?case
  proof
    assume "seen' = seen \<and> nl' = []"
    with 2 show ?thesis by simp
  next
    assume "\<exists>v \<in> fst ` set g. v \<notin> fst ` set seen \<and> v \<in> fst ` set seen'"
    then obtain w where w: "w \<in> fst ` set g" "w \<notin> fst ` set seen" "w \<in> fst ` set seen'"
      by blast
    have "fst ` set g - fst ` set seen' \<subset> fst ` set g - fst ` set seen"
      using w visit_level_mono[OF v] by blast
    then have "card (fst ` set g - fst ` set seen') < card (fst ` set g - fst ` set seen)"
      by (intro psubset_card_mono) auto
    then show ?thesis by simp
  qed
qed

definition single_source_shortest_path_length ::
  "'v graph \<Rightarrow> 'v \<Rightarrow> error + ('v \<times> nat) list" where
  "single_source_shortest_path_length g source = bfs_levels g [] 0 [source]"

text \<open>
  \<^verbatim>\<open>nx.minimum_spanning_tree(G)\<close> is NetworkX's Kruskal: the edges of \<open>G\<close>, sorted by
  weight with a stable sort, are taken one by one, and an edge is kept when its ends
  lie in different subtrees of a union-find structure; the nodes of degree 0 are added
  when nodes are missing. The sort is
  \<^verbatim>\<open>sorted(G.edges(data=True), key=lambda t: t[2].get(weight, 1))\<close>: \<open>weight\<close> gives the
  key of an edge as \<^verbatim>\<open>G.edges()\<close> lists it, which is 1 for an edge without the
  attribute, and \<open>sort_key\<close> is stable as Python's sort is, so that edges of equal
  weight stay in the order of \<^verbatim>\<open>G.edges()\<close>. The union-find structure is the function
  from a node to the representative of its subtree; only the equality of two
  representatives is read.
\<close>

definition union_subtrees :: "('v \<Rightarrow> 'v) \<Rightarrow> 'v \<Rightarrow> 'v \<Rightarrow> ('v \<Rightarrow> 'v)" where
  "union_subtrees subtrees u v = (\<lambda>x. if subtrees x = subtrees u then subtrees v else subtrees x)"

fun kruskal_mst :: "('v \<Rightarrow> 'v) \<Rightarrow> ('v \<times> 'v) list \<Rightarrow> ('v \<times> 'v) list" where
  "kruskal_mst subtrees [] = []"
| "kruskal_mst subtrees ((u, v) # es) =
     (if subtrees u \<noteq> subtrees v then (u, v) # kruskal_mst (union_subtrees subtrees u v) es
      else kruskal_mst subtrees es)"

definition add_edges_from :: "'v graph \<Rightarrow> ('v \<times> 'v) list \<Rightarrow> 'v graph" where
  "add_edges_from g es = fold (\<lambda>(u, v) acc. add_edge acc u v) es g"

definition add_nodes_from :: "'v graph \<Rightarrow> 'v list \<Rightarrow> 'v graph" where
  "add_nodes_from g ns = fold (\<lambda>n acc. add_node acc n) ns g"

definition minimum_spanning_tree :: "('v \<times> 'v \<Rightarrow> 'w::linorder) \<Rightarrow> 'v graph \<Rightarrow> 'v graph" where
  "minimum_spanning_tree weight G =
     (let T = add_edges_from [] (kruskal_mst (\<lambda>x. x) (sort_key weight (edges G)))
      in if length T \<noteq> length G
         then add_nodes_from T (map fst (filter (\<lambda>(n, d). d = 0) (degree G)))
         else T)"

section \<open>The tree object and the two stochastics\<close>

text \<open>
  The value of the stochastic is the graph \<open>T\<close> with the attributes that \<^verbatim>\<open>BDST\<close>,
  \<^verbatim>\<open>LDST\<close> and \<^verbatim>\<open>propose\<close> set on it. An attribute that was never set is \<open>None\<close>.
\<close>

record 'v tree =
  adj :: "'v graph"
  base_graph :: "'v graph"
  attr_root :: "'v option"
  attr_k :: "int option"
  attr_d :: "int option"
  u_new :: "'v option"
  v_new :: "'v option"
  path :: "'v list option"
  u_old :: "'v option"
  v_old :: "'v option"

definition new_tree :: "'v graph \<Rightarrow> 'v graph \<Rightarrow> 'v tree" where
  "new_tree T G =
     \<lparr>adj = T, base_graph = G, attr_root = None, attr_k = None, attr_d = None,
      u_new = None, v_new = None, path = None, u_old = None, v_old = None\<rparr>"

text \<open>
  Both log-probabilities end in a product \<^verbatim>\<open>-beta * np.sum(...)\<close> of the inverse
  temperature, negated, and a count, which is a NumPy 64-bit integer. What the product
  is depends on the value of \<open>beta\<close>: for a float it is the product of two doubles,
  rounded; for an integer it is the product of 64-bit integers, which wraps around. The
  operation is therefore an argument \<open>neg_times\<close> of the two functions, \<open>neg_times beta n\<close>
  being the value of \<^verbatim>\<open>-beta * n\<close> for the count \<open>n\<close>, and what is proved of them holds
  for every such operation. Two instances are given: the wrapping product of 64-bit
  integers, and the product of real numbers, with which the product of doubles agrees
  wherever no rounding occurs.
\<close>

definition neg_times_int64 :: "64 word \<Rightarrow> nat \<Rightarrow> 64 word" where
  "neg_times_int64 beta n = - beta * of_nat n"

definition neg_times_real :: "real \<Rightarrow> nat \<Rightarrow> real" where
  "neg_times_real beta n = - beta * real n"

text \<open>
  \<^verbatim>\<open>bdst(value, root, k, beta)\<close>: \<^verbatim>\<open>-beta * np.sum(path_len > k)\<close> over the values of the
  breadth-first search from \<open>root\<close> in \<open>value\<close>.
\<close>

definition bdst :: "('b \<Rightarrow> nat \<Rightarrow> 'r) \<Rightarrow> 'v tree \<Rightarrow> 'v \<Rightarrow> int \<Rightarrow> 'b \<Rightarrow> error + 'r" where
  "bdst neg_times val rt k beta =
     (case single_source_shortest_path_length (adj val) rt of
        Inl e \<Rightarrow> Inl e
      | Inr seen \<Rightarrow> Inr (neg_times beta (length (filter (\<lambda>l. int l > k) (map snd seen)))))"

text \<open>
  \<^verbatim>\<open>ldst(value, beta)\<close>: \<^verbatim>\<open>-beta * np.sum(np.array(list(T.degree().values())) >= d)\<close>.
  \<open>T\<close> and \<open>d\<close> are variables of the enclosing \<^verbatim>\<open>LDST\<close>, so the function reads the
  object \<open>T\<close> as it is when called, and its parameter \<open>value\<close> is not read.
\<close>

definition ldst :: "('b \<Rightarrow> nat \<Rightarrow> 'r) \<Rightarrow> 'v tree \<Rightarrow> int \<Rightarrow> 'v tree \<Rightarrow> 'b \<Rightarrow> 'r" where
  "ldst neg_times T d val beta =
     neg_times beta (length (filter (\<lambda>dg. int dg \<ge> d) (map snd (degree (adj T)))))"

text \<open>
  \<^verbatim>\<open>BDST\<close> and \<^verbatim>\<open>LDST\<close> build the stochastic. \<^verbatim>\<open>pm.stoch\<close> evaluates the log-probability
  of the initial value once when it builds the stochastic, so an exception of
  \<^verbatim>\<open>bdst\<close> at the initial value is raised by \<^verbatim>\<open>BDST\<close>. The result is the value of the
  stochastic. The first two arguments are the product and the weights of the edges of
  \<open>G\<close>, as above.
\<close>

definition BDST ::
  "('b \<Rightarrow> nat \<Rightarrow> 'r) \<Rightarrow> ('v \<times> 'v \<Rightarrow> 'w::linorder) \<Rightarrow> 'v graph \<Rightarrow> 'v \<Rightarrow> int \<Rightarrow> 'b \<Rightarrow> error + 'v tree" where
  "BDST neg_times weight G rt k beta =
     (let T = (new_tree (minimum_spanning_tree weight G) G)\<lparr>attr_root := Some rt, attr_k := Some k\<rparr>
      in case bdst neg_times T rt k beta of Inl e \<Rightarrow> Inl e | Inr _ \<Rightarrow> Inr T)"

definition LDST ::
  "('b \<Rightarrow> nat \<Rightarrow> 'r) \<Rightarrow> ('v \<times> 'v \<Rightarrow> 'w::linorder) \<Rightarrow> 'v graph \<Rightarrow> int \<Rightarrow> 'b \<Rightarrow> error + 'v tree" where
  "LDST neg_times weight G d beta =
     (let T = (new_tree (minimum_spanning_tree weight G) G)\<lparr>attr_d := Some d\<rparr>;
          lp = ldst neg_times T d T beta
      in Inr T)"

section \<open>The step method\<close>

text \<open>
  The random generator is the list of the numbers it will give; \<^verbatim>\<open>random.choice\<close> and
  \<^verbatim>\<open>random.randrange\<close> reduce a number to an index of their range. A computation that
  asks for a number when the list is used up has not ended on these draws: \<open>None\<close>.
  The result of a computation that returns holds the draws that are left. The tree
  object is changed in place by the code; here the changed object is returned, and the
  state that a raise leaves behind is not kept.
\<close>

definition choice :: "'a list \<Rightarrow> nat \<Rightarrow> 'a" where
  "choice xs r = xs ! (r mod length xs)"

text \<open>
  \<^verbatim>\<open>while T.has_edge(T.u_new, T.v_new): T.u_new, T.v_new = random.choice(T.base_graph.edges())\<close>
\<close>

fun resample ::
  "'v graph \<Rightarrow> 'v graph \<Rightarrow> 'v \<times> 'v \<Rightarrow> nat list \<Rightarrow> (error + ('v \<times> 'v) \<times> nat list) option"
where
  "resample T G (u, v) ds =
     (if has_edge T u v then
        (if edges G = [] then Some (Inl IndexError)
         else case ds of
                [] \<Rightarrow> None
              | r # rs \<Rightarrow> resample T G (choice (edges G) r) rs)
      else Some (Inr ((u, v), ds)))"

text \<open>\<^verbatim>\<open>random.randrange(n)\<close>: \<^verbatim>\<open>ValueError\<close> for an empty range.\<close>

definition randrange :: "int \<Rightarrow> nat list \<Rightarrow> (error + nat \<times> nat list) option" where
  "randrange n ds =
     (if n \<le> 0 then Some (Inl ValueError)
      else case ds of [] \<Rightarrow> None | r # rs \<Rightarrow> Some (Inr (r mod nat n, rs)))"

definition propose :: "'v tree \<Rightarrow> nat list \<Rightarrow> (error + 'v tree \<times> nat list) option" where
  "propose T ds =
     (case edges (adj T) of
        [] \<Rightarrow> Some (Inl IndexError)
      | e0 # _ \<Rightarrow>
         (case resample (adj T) (base_graph T) e0 ds of
            None \<Rightarrow> None
          | Some (Inl e) \<Rightarrow> Some (Inl e)
          | Some (Inr ((un, vn), ds1)) \<Rightarrow>
             (case shortest_path (adj T) un vn of
                Inl e \<Rightarrow> Some (Inl e)
              | Inr p \<Rightarrow>
                 (case randrange (int (length p) - 1) ds1 of
                    None \<Rightarrow> None
                  | Some (Inl e) \<Rightarrow> Some (Inl e)
                  | Some (Inr (i, ds2)) \<Rightarrow>
                     (case remove_edge (adj T) (p ! i) (p ! (i + 1)) of
                        Inl e \<Rightarrow> Some (Inl e)
                      | Inr g1 \<Rightarrow>
                          Some (Inr (T\<lparr>adj := add_edge g1 un vn,
                                       u_new := Some un, v_new := Some vn, path := Some p,
                                       u_old := Some (p ! i), v_old := Some (p ! (i + 1))\<rparr>,
                                     ds2)))))))"

text \<open>
  \<^verbatim>\<open>reject\<close> reads the four attributes that \<^verbatim>\<open>propose\<close> left on the tree; on a tree
  that was never proposed on, reading the first is an \<^verbatim>\<open>AttributeError\<close>.
\<close>

definition reject :: "'v tree \<Rightarrow> error + 'v tree" where
  "reject T =
     (case (u_old T, v_old T, u_new T, v_new T) of
        (Some uo, Some vo, Some un, Some vn) \<Rightarrow>
          (case remove_edge (add_edge (adj T) uo vo) un vn of
             Inl e \<Rightarrow> Inl e
           | Inr g \<Rightarrow> Inr (T\<lparr>adj := g\<rparr>))
      | _ \<Rightarrow> Inl AttributeError)"

section \<open>The acceptance rule\<close>

text \<open>
  Modelled from the spec: the acceptance probability of the step of the sampler,
  \<^verbatim>\<open>pm.Metropolis.step\<close>, which \<^verbatim>\<open>STMetropolis\<close> inherits from PyMC and which is not in the
  source. By section 4.4 of the specification the proposal is accepted with probability
  \<open>min(1, exp(delta))\<close>, \<open>delta\<close> being the energy of the candidate minus the energy of the
  current tree.
\<close>

definition accept_probability :: "real \<Rightarrow> real" where
  "accept_probability delta = min 1 (exp delta)"

text \<open>
  Modelled from the spec: the acceptance test of \<^verbatim>\<open>pm.Metropolis.step\<close>, by means of one
  uniform draw \<open>u\<close> from the interval from 0 to 1, 1 excluded. A uniform draw is below
  \<open>p\<close> with probability \<open>p\<close>, so the proposal is accepted when the draw is below the
  acceptance probability.
\<close>

definition accepted :: "real \<Rightarrow> real \<Rightarrow> bool" where
  "accepted delta u \<longleftrightarrow> u < accept_probability delta"

text \<open>
  Modelled from the spec: the two ways in which an iteration of \<^verbatim>\<open>pm.Metropolis.step\<close>
  ends, each with the tree that it leaves as the value of the stochastic.
\<close>

datatype 'v outcome = Accepted "'v tree" | Rejected "'v tree"

text \<open>
  Modelled from the spec: one iteration of \<^verbatim>\<open>pm.Metropolis.step\<close>. By section 4.4 the
  energy is evaluated on the tree before and after \<^verbatim>\<open>propose\<close> has changed it in place,
  the difference decides the acceptance with the draw \<open>u\<close>, and on rejection the reversal,
  \<^verbatim>\<open>reject\<close>, is invoked. The energy is an argument: it is \<^verbatim>\<open>bdst\<close> or \<^verbatim>\<open>ldst\<close> with its
  parameters. \<^verbatim>\<open>propose\<close> and \<^verbatim>\<open>reject\<close> are those of the source.
\<close>

definition metropolis_step ::
  "('v tree \<Rightarrow> error + real) \<Rightarrow> 'v tree \<Rightarrow> nat list \<Rightarrow> real \<Rightarrow> (error + 'v outcome \<times> nat list) option" where
  "metropolis_step energy T ds u =
     (case energy T of
        Inl e \<Rightarrow> Some (Inl e)
      | Inr current \<Rightarrow>
          (case propose T ds of
             None \<Rightarrow> None
           | Some (Inl e) \<Rightarrow> Some (Inl e)
           | Some (Inr (T', ds')) \<Rightarrow>
               (case energy T' of
                  Inl e \<Rightarrow> Some (Inl e)
                | Inr candidate \<Rightarrow>
                    if accepted (candidate - current) u then Some (Inr (Accepted T', ds'))
                    else (case reject T' of
                            Inl e \<Rightarrow> Some (Inl e)
                          | Inr T'' \<Rightarrow> Some (Inr (Rejected T'', ds'))))))"

section \<open>The graph as a relation\<close>

text \<open>The edges of a graph as a relation on its nodes; both directions of an edge are in it.\<close>

definition edge_rel :: "'v graph \<Rightarrow> ('v \<times> 'v) set" where
  "edge_rel g = {(u, v). has_edge g u v}"

text \<open>
  What every \<^verbatim>\<open>nx.Graph\<close> satisfies: the keys of a dictionary are distinct, and an edge
  is stored at both of its ends.
\<close>

definition wf_graph :: "'v graph \<Rightarrow> bool" where
  "wf_graph g \<longleftrightarrow>
     distinct (map fst g) \<and> (\<forall>ns \<in> snd ` set g. distinct ns) \<and>
     (\<forall>u v. has_edge g u v \<longrightarrow> has_edge g v u)"

text \<open>
  The length of a shortest path from \<open>s\<close> to \<open>v\<close>: the least number of edges of a walk
  from \<open>s\<close> to \<open>v\<close>.
\<close>

definition distance :: "'v graph \<Rightarrow> 'v \<Rightarrow> 'v \<Rightarrow> nat" where
  "distance g s v = (LEAST n. (s, v) \<in> edge_rel g ^^ n)"

definition is_dist :: "'v graph \<Rightarrow> 'v \<Rightarrow> 'v \<Rightarrow> nat \<Rightarrow> bool" where
  "is_dist g s v n \<longleftrightarrow> (s, v) \<in> edge_rel g ^^ n \<and> (\<forall>m<n. (s, v) \<notin> edge_rel g ^^ m)"

text \<open>The invariant of the breadth-first search at the start of a level.\<close>

definition bfs_inv :: "'v graph \<Rightarrow> 'v \<Rightarrow> ('v \<times> nat) list \<Rightarrow> nat \<Rightarrow> 'v list \<Rightarrow> bool" where
  "bfs_inv g s seen level nl \<longleftrightarrow>
     distinct (map fst seen) \<and>
     set seen = {(v, n). n < level \<and> is_dist g s v n} \<and>
     {v. is_dist g s v level} \<subseteq> set nl \<and>
     set nl \<subseteq> {v. (s, v) \<in> edge_rel g ^^ level} \<and>
     set nl \<subseteq> set (nodes g)"

text \<open>
  Connected graphs, cycles (a self-loop, or at least three distinct nodes in a closed
  walk) and the degree of a node, a self-loop counted twice.
\<close>

definition connected_graph :: "'v graph \<Rightarrow> bool" where
  "connected_graph g \<longleftrightarrow> (\<forall>u \<in> set (nodes g). \<forall>v \<in> set (nodes g). (u, v) \<in> (edge_rel g)\<^sup>*)"

definition walk :: "'v graph \<Rightarrow> 'v list \<Rightarrow> bool" where
  "walk g p \<longleftrightarrow> p \<noteq> [] \<and> successively (has_edge g) p"

definition cycle :: "'v graph \<Rightarrow> 'v list \<Rightarrow> bool" where
  "cycle g c \<longleftrightarrow>
     walk g c \<and> distinct c \<and> has_edge g (last c) (hd c) \<and> (length c = 1 \<or> 3 \<le> length c)"

definition acyclic_graph :: "'v graph \<Rightarrow> bool" where
  "acyclic_graph g \<longleftrightarrow> (\<nexists>c. cycle g c)"

definition deg :: "'v graph \<Rightarrow> 'v \<Rightarrow> nat" where
  "deg g n = card (edge_rel g `` {n}) + (if (n, n) \<in> edge_rel g then 1 else 0)"

text \<open>The neighbour lists of a graph have no repeated node.\<close>

definition distinct_nbrs :: "'v graph \<Rightarrow> bool" where
  "distinct_nbrs g \<longleftrightarrow> (\<forall>n ns. map_of g n = Some ns \<longrightarrow> distinct ns)"

text \<open>
  A symmetric relation in which every edge is a bridge: its two ends are not connected
  by the other edges. For the edge relation of a graph this is the same as having no
  cycle (lemmas \<open>bridges_acyclic\<close> and \<open>acyclic_bridges\<close>).
\<close>

definition bridges :: "('v \<times> 'v) set \<Rightarrow> bool" where
  "bridges R = (\<forall>a b. (a, b) \<in> R \<longrightarrow> (a, b) \<notin> (R - {(a, b), (b, a)})\<^sup>*)"

text \<open>
  The edges of a graph as unordered pairs, the number of edges (the length of
  \<^verbatim>\<open>edges()\<close>; for a well-formed graph the number of unordered pairs, lemma
  \<open>number_of_edges_card\<close>), and the spanning trees: the tree object holds a well-formed
  graph on the nodes of its well-formed base graph, with edges of the base graph, one
  edge less than nodes, connected and without a cycle.
\<close>

definition uedges :: "('v \<times> 'v) set \<Rightarrow> 'v set set" where
  "uedges R = (\<lambda>(a, b). {a, b}) ` R"

definition number_of_edges :: "'v graph \<Rightarrow> nat" where
  "number_of_edges g = length (edges g)"

definition spanning_tree :: "'v tree \<Rightarrow> bool" where
  "spanning_tree T \<longleftrightarrow>
     wf_graph (adj T) \<and> wf_graph (base_graph T) \<and>
     set (nodes (adj T)) = set (nodes (base_graph T)) \<and>
     edge_rel (adj T) \<subseteq> edge_rel (base_graph T) \<and>
     number_of_edges (adj T) = length (nodes (adj T)) - 1 \<and>
     connected_graph (adj T) \<and> acyclic_graph (adj T)"

section \<open>Example graphs\<close>

text \<open>
  The base graph is the triangle on the nodes 0, 1 and 2, the tree is the path 0 - 1 - 2.
  With the draws 0, 1, 0, \<^verbatim>\<open>propose\<close> draws the tree edge (0, 1), then the edge (0, 2),
  finds the path 0, 1, 2 and removes its first edge: \<open>tri_tree'\<close> is the result. The
  other graphs are two nodes without an edge, the star and the path on four nodes.
\<close>

definition tri :: "nat graph" where
  "tri = [(0, [1, 2]), (1, [0, 2]), (2, [0, 1])]"

definition tri_path :: "nat graph" where
  "tri_path = [(0, [1]), (1, [0, 2]), (2, [1])]"

definition tri_tree :: "nat tree" where
  "tri_tree = new_tree tri_path tri"

definition tri_tree' :: "nat tree" where
  "tri_tree' = tri_tree\<lparr>adj := [(0, [2]), (1, [2]), (2, [1, 0])],
       u_new := Some 0, v_new := Some 2, path := Some [0, 1, 2], u_old := Some 0, v_old := Some 1\<rparr>"

definition two_isolated :: "nat graph" where
  "two_isolated = [(0, []), (1, [])]"

definition star4 :: "nat graph" where
  "star4 = [(0, [1, 2, 3]), (1, [0]), (2, [0]), (3, [0])]"

definition path4 :: "nat graph" where
  "path4 = [(0, [1]), (1, [0, 2]), (2, [1, 3]), (3, [2])]"

section \<open>Properties of the graph operations\<close>

lemma map_of_add_node:
  "map_of (add_node g u) x = (if x = u \<and> map_of g u = None then Some [] else map_of g x)"
  by (auto simp: add_node_def map_add_def split: option.splits)

lemma has_edge_add_node [simp]: "has_edge (add_node g u) x y = has_edge g x y"
  by (auto simp: has_edge_def map_of_add_node split: option.splits)

lemma has_edge_set_adj:
  "map_of g u \<noteq> None \<Longrightarrow> has_edge (set_adj g u v) x y \<longleftrightarrow> has_edge g x y \<or> (x = u \<and> y = v)"
  by (auto simp: has_edge_def set_adj_def setkey_def update_conv' split: option.splits if_splits)

lemma has_node_set_adj: "map_of (set_adj g u v) x = None \<longleftrightarrow> map_of g x = None \<and> x \<noteq> u"
  by (auto simp: set_adj_def update_conv' split: option.splits)

lemma has_edge_add_edge:
  "has_edge (add_edge g u v) x y \<longleftrightarrow> has_edge g x y \<or> (x = u \<and> y = v) \<or> (x = v \<and> y = u)"
  unfolding add_edge_def
  by (subst has_edge_set_adj, simp add: has_node_set_adj map_of_add_node,
      subst has_edge_set_adj, simp add: map_of_add_node, auto)

lemma del_adj_Inr:
  assumes "del_adj g u v = Inr g'"
  shows "has_edge g u v" and "has_edge g' x y \<longleftrightarrow> has_edge g x y \<and> \<not> (x = u \<and> y = v)"
  using assms
  by (auto simp: del_adj_def has_edge_def update_conv' split: option.splits if_splits)

lemma remove_edge_Inr:
  assumes "remove_edge g u v = Inr g'"
  shows "has_edge g u v" and "has_edge g v u"
    and "has_edge g' x y \<longleftrightarrow> has_edge g x y \<and> \<not> (x = u \<and> y = v) \<and> \<not> (x = v \<and> y = u)"
proof -
  from assms obtain g1 where g1: "del_adj g u v = Inr g1"
    and g': "if u \<noteq> v then del_adj g1 v u = Inr g' else g' = g1"
    by (auto simp: remove_edge_def split: sum.splits if_splits)
  show "has_edge g u v" using del_adj_Inr(1)[OF g1] .
  show "has_edge g v u"
  proof (cases "u = v")
    case True
    then show ?thesis using del_adj_Inr(1)[OF g1] by simp
  next
    case False
    with g' have "del_adj g1 v u = Inr g'" by simp
    from del_adj_Inr(1)[OF this] show ?thesis using del_adj_Inr(2)[OF g1] by simp
  qed
  show "has_edge g' x y \<longleftrightarrow> has_edge g x y \<and> \<not> (x = u \<and> y = v) \<and> \<not> (x = v \<and> y = u)"
  proof (cases "u = v")
    case True
    then show ?thesis using del_adj_Inr(2)[OF g1] g' by auto
  next
    case False
    with g' have "del_adj g1 v u = Inr g'" by simp
    from del_adj_Inr(2)[OF this] show ?thesis using del_adj_Inr(2)[OF g1] by auto
  qed
qed

lemma del_adj_succeeds: "has_edge g u v \<Longrightarrow> \<exists>g'. del_adj g u v = Inr g'"
  by (auto simp: del_adj_def has_edge_def split: option.splits)

lemma remove_edge_succeeds:
  assumes "has_edge g u v" "has_edge g v u"
  shows "\<exists>g'. remove_edge g u v = Inr g'"
proof -
  from del_adj_succeeds[OF assms(1)] obtain g1 where g1: "del_adj g u v = Inr g1" by blast
  show ?thesis
  proof (cases "u = v")
    case True
    with g1 show ?thesis by (simp add: remove_edge_def)
  next
    case False
    with del_adj_Inr(2)[OF g1] assms(2) have "has_edge g1 v u" by simp
    from del_adj_succeeds[OF this] g1 False show ?thesis by (simp add: remove_edge_def)
  qed
qed

lemma nodes_add_node: "set (nodes (add_node g u)) = insert u (set (nodes g))"
  by (auto simp: nodes_def add_node_def map_of_eq_None_iff)

lemma nodes_update: "map_of g u \<noteq> None \<Longrightarrow> set (nodes (AList.update u ns g)) = set (nodes g)"
  using dom_update[of u ns g] by (auto simp: nodes_def dom_map_of_conv_image_fst map_of_eq_None_iff)

lemma nodes_set_adj: "map_of g u \<noteq> None \<Longrightarrow> set (nodes (set_adj g u v)) = set (nodes g)"
  by (auto simp: set_adj_def nodes_update split: option.splits)

lemma nodes_add_edge: "set (nodes (add_edge g u v)) = insert u (insert v (set (nodes g)))"
  unfolding add_edge_def
  by (subst nodes_set_adj, simp add: has_node_set_adj map_of_add_node,
      subst nodes_set_adj, simp add: map_of_add_node, auto simp: nodes_add_node)

lemma nodes_del_adj: "del_adj g u v = Inr g' \<Longrightarrow> set (nodes g') = set (nodes g)"
  by (auto simp: del_adj_def nodes_update split: option.splits if_splits)

lemma nodes_remove_edge: "remove_edge g u v = Inr g' \<Longrightarrow> set (nodes g') = set (nodes g)"
  by (auto simp: remove_edge_def nodes_del_adj split: sum.splits if_splits)


section \<open>Properties of the searches and of the step method\<close>

lemma edges_iter_subset:
  "(u, v) \<in> set (edges_iter seen g) \<Longrightarrow> \<exists>nbrs. (u, nbrs) \<in> set g \<and> v \<in> set nbrs"
  by (induction seen g rule: edges_iter.induct) auto

lemma edges_has_edge:
  assumes "distinct (map fst g)" "(u, v) \<in> set (edges g)"
  shows "has_edge g u v"
proof -
  from edges_iter_subset[OF assms(2)[unfolded edges_def]]
  obtain nbrs where "(u, nbrs) \<in> set g" "v \<in> set nbrs" by blast
  with assms(1) show ?thesis by (simp add: has_edge_def)
qed

lemma choice_mem: "xs \<noteq> [] \<Longrightarrow> choice xs r \<in> set xs"
  by (simp add: choice_def)

lemma resample_Inr:
  "resample T G e ds = Some (Inr (e', ds')) \<Longrightarrow> has_edge T (fst e) (snd e) \<Longrightarrow>
     \<exists>n. n < length ds \<and> ds' = drop (Suc n) ds \<and> e' = choice (edges G) (ds ! n) \<and>
         edges G \<noteq> [] \<and> \<not> has_edge T (fst e') (snd e') \<and>
         (\<forall>j<n. has_edge T (fst (choice (edges G) (ds ! j))) (snd (choice (edges G) (ds ! j))))"
proof (induction ds arbitrary: e)
  case Nil
  then show ?case by (cases e) (auto split: if_splits)
next
  case (Cons r rs)
  obtain u v where e: "e = (u, v)" by (cases e)
  let ?e1 = "choice (edges G) r"
  from Cons.prems e have ne: "edges G \<noteq> []" and r: "resample T G ?e1 rs = Some (Inr (e', ds'))"
    by (auto split: if_splits)
  show ?case
  proof (cases "has_edge T (fst ?e1) (snd ?e1)")
    case True
    from Cons.IH[OF r True] obtain n where n: "n < length rs" "ds' = drop (Suc n) rs"
      "e' = choice (edges G) (rs ! n)" "\<not> has_edge T (fst e') (snd e')"
      "\<forall>j<n. has_edge T (fst (choice (edges G) (rs ! j))) (snd (choice (edges G) (rs ! j)))"
      by blast
    have "\<forall>j<Suc n. has_edge T (fst (choice (edges G) ((r # rs) ! j))) (snd (choice (edges G) ((r # rs) ! j)))"
      using True n(5) by (auto simp: less_Suc_eq_0_disj)
    with n ne show ?thesis by (intro exI[of _ "Suc n"]) simp
  next
    case False
    with r have "e' = ?e1" "ds' = rs" by (cases ?e1; simp)+
    with False ne show ?thesis by (intro exI[of _ 0]) simp
  qed
qed

lemma simple_paths_props:
  "p \<in> set (simple_paths g s n) \<Longrightarrow>
     length p = Suc n \<and> hd p = s \<and> distinct p \<and> successively (has_edge g) p"
proof (induction n arbitrary: p)
  case 0
  then show ?case by simp
next
  case (Suc n)
  then obtain q w where q: "q \<in> set (simple_paths g s n)" and p: "p = q @ [w]"
    and w: "w \<notin> set q" "w \<in> set (case map_of g (last q) of None \<Rightarrow> [] | Some ns \<Rightarrow> ns)"
    by auto
  from Suc.IH[OF q] have IH: "length q = Suc n" "hd q = s" "distinct q" "successively (has_edge g) q"
    by auto
  then have qne: "q \<noteq> []" by auto
  from w(2) have "has_edge g (last q) w" by (cases "map_of g (last q)") (auto simp: has_edge_def)
  with IH qne w(1) show ?case unfolding p
    by (auto simp: successively_append_iff)
qed

lemma shortest_path_Inr:
  assumes "shortest_path g s t = Inr p"
  shows "p \<noteq> []" "hd p = s" "last p = t" "distinct p" "successively (has_edge g) p"
    and "s \<noteq> t \<Longrightarrow> 2 \<le> length p"
proof -
  have "p \<noteq> [] \<and> hd p = s \<and> last p = t \<and> distinct p \<and> successively (has_edge g) p \<and> (s \<noteq> t \<longrightarrow> 2 \<le> length p)"
  proof (cases "s = t")
    case True
    with assms have "p = [t]" by (simp add: shortest_path_def)
    with True show ?thesis by simp
  next
    case False
    with assms obtain ps where
      "filter (\<lambda>p. last p = t) (concat (map (simple_paths g s) [1..<length g])) = p # ps"
      by (auto simp: shortest_path_def split: list.splits)
    then have "p \<in> set (filter (\<lambda>p. last p = t) (concat (map (simple_paths g s) [1..<length g])))"
      by simp
    then obtain n where "1 \<le> n" "p \<in> set (simple_paths g s n)" "last p = t" by auto
    with simple_paths_props[OF this(2)] show ?thesis by auto
  qed
  then show "p \<noteq> []" "hd p = s" "last p = t" "distinct p" "successively (has_edge g) p"
    and "s \<noteq> t \<Longrightarrow> 2 \<le> length p" by auto
qed

lemma propose_Inr:
  assumes "propose T ds = Some (Inr (T', ds'))"
  obtains e0 es un vn ds1 p i g1 where
    "edges (adj T) = e0 # es"
    "resample (adj T) (base_graph T) e0 ds = Some (Inr ((un, vn), ds1))"
    "shortest_path (adj T) un vn = Inr p"
    "randrange (int (length p) - 1) ds1 = Some (Inr (i, ds'))"
    "remove_edge (adj T) (p ! i) (p ! (i + 1)) = Inr g1"
    "T' = T\<lparr>adj := add_edge g1 un vn, u_new := Some un, v_new := Some vn, path := Some p,
            u_old := Some (p ! i), v_old := Some (p ! (i + 1))\<rparr>"
  using assms unfolding propose_def
  by (auto split: list.splits option.splits sum.splits prod.splits)

lemma randrange_Inr:
  "randrange n ds = Some (Inr (i, ds')) \<Longrightarrow> 0 < n \<and> int i < n \<and> (\<exists>r. ds = r # ds' \<and> i = r mod nat n)"
proof -
  assume a: "randrange n ds = Some (Inr (i, ds'))"
  then have n: "0 < n" by (auto simp: randrange_def split: if_splits)
  with a obtain r where r: "ds = r # ds'" "i = r mod nat n"
    by (auto simp: randrange_def split: if_splits list.splits)
  from n have "r mod nat n < nat n" by simp
  then have "int (r mod nat n) < int (nat n)" by (simp only: of_nat_less_iff)
  also from n have "int (nat n) = n" by simp
  finally show ?thesis using n r by auto
qed

lemma resample_not_has_edge:
  "resample T G e ds = Some (Inr (e', ds')) \<Longrightarrow> \<not> has_edge T (fst e') (snd e')"
proof (induction ds arbitrary: e)
  case Nil
  then show ?case by (cases e) (auto split: if_splits)
next
  case (Cons r rs)
  then show ?case by (cases e) (auto split: if_splits)
qed

lemma has_edge_node: "has_edge g u v \<Longrightarrow> u \<in> set (nodes g)"
  by (auto simp: has_edge_def nodes_def split: option.splits dest: map_of_SomeD intro: rev_image_eqI)


lemma propose_swap:
  assumes pr: "propose T ds = Some (Inr (T', ds'))"
  obtains uo vo un vn g1 p where
    "u_old T' = Some uo" "v_old T' = Some vo" "u_new T' = Some un" "v_new T' = Some vn"
    "has_edge (adj T) uo vo" "has_edge (adj T) vo uo" "\<not> has_edge (adj T) un vn"
    "remove_edge (adj T) uo vo = Inr g1" "adj T' = add_edge g1 un vn"
    "base_graph T' = base_graph T" "has_edge (adj T) un (p ! 1)"
    "has_edge (adj T) (p ! (length p - 2)) vn"
proof -
  from pr obtain e0 es un vn ds1 p i g1 where
    rs: "resample (adj T) (base_graph T) e0 ds = Some (Inr ((un, vn), ds1))" and
    sp: "shortest_path (adj T) un vn = Inr p" and
    rr: "randrange (int (length p) - 1) ds1 = Some (Inr (i, ds'))" and
    rm: "remove_edge (adj T) (p ! i) (p ! (i + 1)) = Inr g1" and
    T': "T' = T\<lparr>adj := add_edge g1 un vn, u_new := Some un, v_new := Some vn, path := Some p,
            u_old := Some (p ! i), v_old := Some (p ! (i + 1))\<rparr>"
    by (rule propose_Inr)
  from resample_not_has_edge[OF rs] have n: "\<not> has_edge (adj T) un vn" by simp
  from randrange_Inr[OF rr] have len: "2 \<le> length p" by auto
  note spp = shortest_path_Inr[OF sp]
  from len have "Suc 0 < length p" "Suc (length p - 2) < length p" by auto
  from this[THEN successively_nth[OF spp(5)]] len spp(1,2,3)
  have "has_edge (adj T) un (p ! 1)" "has_edge (adj T) (p ! (length p - 2)) vn"
    by (auto simp: hd_conv_nth last_conv_nth Suc_diff_Suc numeral_2_eq_2)
  with n remove_edge_Inr(1,2)[OF rm] rm T' that show ?thesis by simp
qed

section \<open>The breadth-first search computes the distances\<close>

lemma is_dist_distance: "is_dist g s v n \<Longrightarrow> distance g s v = n"
  unfolding is_dist_def distance_def
proof (rule Least_equality)
  assume a: "(s, v) \<in> edge_rel g ^^ n \<and> (\<forall>m<n. (s, v) \<notin> edge_rel g ^^ m)"
  then show "(s, v) \<in> edge_rel g ^^ n" by simp
  fix y assume "(s, v) \<in> edge_rel g ^^ y"
  with a show "n \<le> y" by (meson not_le)
qed

lemma is_dist_unique: "is_dist g s v n \<Longrightarrow> is_dist g s v m \<Longrightarrow> n = m"
  by (auto dest!: is_dist_distance)

lemma reach_is_dist: "(s, v) \<in> edge_rel g ^^ n \<Longrightarrow> \<exists>m\<le>n. is_dist g s v m"
proof -
  assume a: "(s, v) \<in> edge_rel g ^^ n"
  let ?P = "\<lambda>n. (s, v) \<in> edge_rel g ^^ n"
  have "?P (Least ?P)" using a by (rule LeastI)
  moreover have "\<forall>m<Least ?P. \<not> ?P m" using not_less_Least by blast
  moreover have "Least ?P \<le> n" using a by (rule Least_le)
  ultimately show ?thesis unfolding is_dist_def by blast
qed

lemma is_dist_Suc_pred:
  assumes "is_dist g s v (Suc n)"
  shows "\<exists>u. is_dist g s u n \<and> (u, v) \<in> edge_rel g"
proof -
  from assms have r: "(s, v) \<in> edge_rel g ^^ Suc n"
    and mn: "\<And>m. m < Suc n \<Longrightarrow> (s, v) \<notin> edge_rel g ^^ m"
    unfolding is_dist_def by blast+
  from r obtain u where u: "(s, u) \<in> edge_rel g ^^ n" "(u, v) \<in> edge_rel g"
    by (rule relpow_Suc_E)
  have "(s, u) \<notin> edge_rel g ^^ m" if "m < n" for m
  proof
    assume "(s, u) \<in> edge_rel g ^^ m"
    then have "(s, v) \<in> edge_rel g ^^ Suc m" using u(2) by (rule relpow_Suc_I)
    moreover from that have "Suc m < Suc n" by simp
    ultimately show False using mn by blast
  qed
  with u show ?thesis unfolding is_dist_def by blast
qed

lemma set_dict_update [simp]: "set (dict_update d ks) = set d \<union> set ks"
  unfolding dict_update_def
  by (induction ks arbitrary: d) (auto simp: setkey_def)

lemma getitem_edge_rel: "getitem g v = Inr ns \<Longrightarrow> set ns = edge_rel g `` {v}"
  by (auto simp: getitem_def edge_rel_def has_edge_def split: option.splits)

lemma getitem_node: "v \<in> set (nodes g) \<Longrightarrow> \<exists>ns. getitem g v = Inr ns"
  by (cases "map_of g v") (auto simp: getitem_def nodes_def map_of_eq_None_iff)

lemma getitem_not_node: "v \<notin> set (nodes g) \<Longrightarrow> getitem g v = Inl KeyError"
  by (cases "map_of g v") (auto simp: getitem_def nodes_def dest: map_of_SomeD intro: rev_image_eqI)

lemma visit_level_Inr:
  assumes "set vs - fst ` set seen \<subseteq> set (nodes g)"
  shows "\<exists>seen' nl'. visit_level g level vs seen nl = Inr (seen', nl') \<and>
           set seen' = set seen \<union> (\<lambda>v. (v, level)) ` (set vs - fst ` set seen) \<and>
           (distinct (map fst seen) \<longrightarrow> distinct (map fst seen')) \<and>
           set nl' = set nl \<union> edge_rel g `` (set vs - fst ` set seen)"
  using assms
proof (induction vs arbitrary: seen nl)
  case Nil
  then show ?case by simp
next
  case (Cons v vs)
  show ?case
  proof (cases "v \<in> fst ` set seen")
    case True
    then have eq: "set (v # vs) - fst ` set seen = set vs - fst ` set seen" by auto
    with Cons.prems have "set vs - fst ` set seen \<subseteq> set (nodes g)" by simp
    from Cons.IH[OF this, of nl]
    obtain seen' nl' where r: "visit_level g level vs seen nl = Inr (seen', nl')"
      "set seen' = set seen \<union> (\<lambda>v. (v, level)) ` (set vs - fst ` set seen)"
      "distinct (map fst seen) \<longrightarrow> distinct (map fst seen')"
      "set nl' = set nl \<union> edge_rel g `` (set vs - fst ` set seen)"
      by blast
    have "visit_level g level (v # vs) seen nl = Inr (seen', nl')"
      using True r(1) by simp
    with r(2,3,4) show ?thesis unfolding eq by blast
  next
    case False
    with Cons.prems have "v \<in> set (nodes g)" by (simp add: subset_iff)
    from getitem_node[OF this] obtain ns where ns: "getitem g v = Inr ns" ..
    let ?seen = "seen @ [(v, level)]"
    have k: "fst ` set ?seen = insert v (fst ` set seen)" by simp
    have eq: "set (v # vs) - fst ` set seen = insert v (set vs - fst ` set ?seen)"
      unfolding k using False by auto
    have "set vs - fst ` set ?seen \<subseteq> set (nodes g)" unfolding k using Cons.prems by auto
    from Cons.IH[OF this, of "dict_update nl ns"]
    obtain seen' nl' where r: "visit_level g level vs ?seen (dict_update nl ns) = Inr (seen', nl')"
      "set seen' = set ?seen \<union> (\<lambda>v. (v, level)) ` (set vs - fst ` set ?seen)"
      "distinct (map fst ?seen) \<longrightarrow> distinct (map fst seen')"
      "set nl' = set (dict_update nl ns) \<union> edge_rel g `` (set vs - fst ` set ?seen)"
      by blast
    have 1: "visit_level g level (v # vs) seen nl = Inr (seen', nl')"
      using False ns r(1) by simp
    have 2: "set seen' = set seen \<union> (\<lambda>v. (v, level)) ` (set (v # vs) - fst ` set seen)"
      unfolding eq r(2) by simp
    have "distinct (map fst seen) \<Longrightarrow> distinct (map fst ?seen)" using False by simp
    with r(3) have 3: "distinct (map fst seen) \<longrightarrow> distinct (map fst seen')" by blast
    have "edge_rel g `` insert v A = set ns \<union> edge_rel g `` A" for A
      using getitem_edge_rel[OF ns] by blast
    then have 4: "set nl' = set nl \<union> edge_rel g `` (set (v # vs) - fst ` set seen)"
      unfolding eq r(4) by (simp add: Un_assoc)
    from 1 2 3 4 show ?thesis by blast
  qed
qed

lemma bfs_levels_correct:
  "\<forall>u v. has_edge g u v \<longrightarrow> v \<in> set (nodes g) \<Longrightarrow> bfs_inv g s seen level nl \<Longrightarrow>
     \<exists>seen'. bfs_levels g seen level nl = Inr seen' \<and> distinct (map fst seen') \<and>
            set seen' = {(v, n). is_dist g s v n}"
proof (induction g seen level nl rule: bfs_levels.induct)
  case (1 g seen level nl)
  note closed = "1.prems"(1)
  note inv = "1.prems"(2)[unfolded bfs_inv_def]
  show ?case
  proof (cases "nl = []")
    case True
    with inv have none: "\<not> is_dist g s v level" for v by auto
    have "\<not> is_dist g s v (level + d)" for v d
    proof (induction d arbitrary: v)
      case 0
      then show ?case using none by simp
    next
      case (Suc d)
      show ?case
      proof
        assume "is_dist g s v (level + Suc d)"
        then have "is_dist g s v (Suc (level + d))" by simp
        from is_dist_Suc_pred[OF this] Suc show False by blast
      qed
    qed
    then have "\<not> is_dist g s v n" if "level \<le> n" for v n
      using that le_Suc_ex by blast
    then have "{(v, n). is_dist g s v n} = {(v, n). n < level \<and> is_dist g s v n}"
      by (meson not_le)
    with inv True show ?thesis by (subst bfs_levels.simps) simp
  next
    case False
    have sub: "set nl - fst ` set seen \<subseteq> set (nodes g)" using inv by auto
    from visit_level_Inr[OF sub, of level "[]"]
    obtain seen' nl' where r: "visit_level g level nl seen [] = Inr (seen', nl')"
      "set seen' = set seen \<union> (\<lambda>v. (v, level)) ` (set nl - fst ` set seen)"
      "distinct (map fst seen')"
      "set nl' = edge_rel g `` (set nl - fst ` set seen)"
      using inv by auto
    have keys: "fst ` set seen = {v. \<exists>n<level. is_dist g s v n}"
      using inv by (auto simp: image_iff)
    have new: "set nl - fst ` set seen = {v. is_dist g s v level}"
    proof (intro equalityI subsetI)
      fix v assume v: "v \<in> set nl - fst ` set seen"
      with inv have "(s, v) \<in> edge_rel g ^^ level" by auto
      from reach_is_dist[OF this] obtain m where m: "m \<le> level" "is_dist g s v m" by blast
      with v keys have "m = level" by (cases "m < level") auto
      with m show "v \<in> {v. is_dist g s v level}" by simp
    next
      fix v assume v: "v \<in> {v. is_dist g s v level}"
      with inv have "v \<in> set nl" by auto
      moreover have "v \<notin> fst ` set seen" using v keys by (auto dest: is_dist_unique)
      ultimately show "v \<in> set nl - fst ` set seen" by simp
    qed
    have "bfs_inv g s seen' (level + 1) nl'"
      unfolding bfs_inv_def
    proof (intro conjI)
      show "distinct (map fst seen')" by fact
      show "set seen' = {(v, n). n < level + 1 \<and> is_dist g s v n}"
        unfolding r(2) new using inv by (auto simp: less_Suc_eq)
      show "{v. is_dist g s v (level + 1)} \<subseteq> set nl'"
        unfolding r(4) new using is_dist_Suc_pred[of g s _ level] by auto
      show "set nl' \<subseteq> {v. (s, v) \<in> edge_rel g ^^ (level + 1)}"
        unfolding r(4) new by (auto simp: is_dist_def)
      show "set nl' \<subseteq> set (nodes g)"
        unfolding r(4) using closed by (auto simp: edge_rel_def)
    qed
    from "1.IH"[OF False r(1) refl closed this] r(1) False
    show ?thesis by (subst bfs_levels.simps) simp
  qed
qed

lemma sssp_length_correct:
  assumes closed: "\<forall>u v. has_edge g u v \<longrightarrow> v \<in> set (nodes g)" and s: "s \<in> set (nodes g)"
  shows "\<exists>seen. single_source_shortest_path_length g s = Inr seen \<and> distinct (map fst seen) \<and>
            set seen = {(v, n). is_dist g s v n}"
  unfolding single_source_shortest_path_length_def
proof (rule bfs_levels_correct[OF closed])
  show "bfs_inv g s [] 0 [s]" using s by (auto simp: bfs_inv_def is_dist_def)
qed

lemma sssp_length_not_node:
  "s \<notin> set (nodes g) \<Longrightarrow> single_source_shortest_path_length g s = Inl KeyError"
  by (simp add: single_source_shortest_path_length_def getitem_not_node)

lemma count_filter_snd:
  assumes "distinct (map fst xs)"
  shows "length (filter P (map snd xs)) = card {v. \<exists>n. (v, n) \<in> set xs \<and> P n}"
proof -
  from assms have d: "distinct xs" and inj: "inj_on fst (set xs)" by (simp_all add: distinct_map)
  have "length (filter P (map snd xs)) = length (filter (P \<circ> snd) xs)"
    by (simp add: filter_map)
  also have "\<dots> = card (set (filter (P \<circ> snd) xs))"
    using d by (intro distinct_card[symmetric] distinct_filter)
  also have "\<dots> = card (fst ` set (filter (P \<circ> snd) xs))"
    by (rule card_image[symmetric]) (rule inj_on_subset[OF inj], auto)
  also have "fst ` set (filter (P \<circ> snd) xs) = {v. \<exists>n. (v, n) \<in> set xs \<and> P n}"
  proof (intro equalityI subsetI)
    fix v assume "v \<in> fst ` set (filter (P \<circ> snd) xs)"
    then obtain x where "x \<in> set xs" "P (snd x)" "v = fst x" by auto
    then have "(v, snd x) \<in> set xs \<and> P (snd x)" by simp
    then show "v \<in> {v. \<exists>n. (v, n) \<in> set xs \<and> P n}" by blast
  next
    fix v assume "v \<in> {v. \<exists>n. (v, n) \<in> set xs \<and> P n}"
    then obtain n where "(v, n) \<in> set xs" "P n" by blast
    then have "(v, n) \<in> set (filter (P \<circ> snd) xs)" by simp
    then show "v \<in> fst ` set (filter (P \<circ> snd) xs)" by (rule rev_image_eqI) simp
  qed
  finally show ?thesis .
qed

lemma wf_graph_closed: "wf_graph g \<Longrightarrow> \<forall>u v. has_edge g u v \<longrightarrow> v \<in> set (nodes g)"
  by (auto simp: wf_graph_def dest: has_edge_node)

lemma is_dist_reach: "is_dist g s v n \<Longrightarrow> (s, v) \<in> (edge_rel g)\<^sup>*"
  by (auto simp: is_dist_def intro: relpow_imp_rtrancl)

lemma reach_ex_is_dist: "(s, v) \<in> (edge_rel g)\<^sup>* \<Longrightarrow> \<exists>n. is_dist g s v n"
  by (auto dest!: rtrancl_imp_relpow reach_is_dist)

lemma bdst_score:
  assumes cl: "\<forall>u v. has_edge (adj V) u v \<longrightarrow> v \<in> set (nodes (adj V))"
    and rt: "rt \<in> set (nodes (adj V))"
  shows "bdst neg_times V rt k beta =
           Inr (neg_times beta (card {v. (rt, v) \<in> (edge_rel (adj V))\<^sup>* \<and> k < int (distance (adj V) rt v)}))"
proof -
  from sssp_length_correct[OF cl rt]
  obtain seen where seen: "single_source_shortest_path_length (adj V) rt = Inr seen"
    "distinct (map fst seen)" "set seen = {(v, n). is_dist (adj V) rt v n}"
    by blast
  have "{v. \<exists>n. (v, n) \<in> set seen \<and> k < int n} =
        {v. (rt, v) \<in> (edge_rel (adj V))\<^sup>* \<and> k < int (distance (adj V) rt v)}"
  proof (intro equalityI subsetI)
    fix v assume "v \<in> {v. \<exists>n. (v, n) \<in> set seen \<and> k < int n}"
    then obtain n where "is_dist (adj V) rt v n" "k < int n" unfolding seen(3) by blast
    with is_dist_reach[OF this(1)] is_dist_distance[OF this(1)]
    show "v \<in> {v. (rt, v) \<in> (edge_rel (adj V))\<^sup>* \<and> k < int (distance (adj V) rt v)}" by simp
  next
    fix v assume "v \<in> {v. (rt, v) \<in> (edge_rel (adj V))\<^sup>* \<and> k < int (distance (adj V) rt v)}"
    then have r: "(rt, v) \<in> (edge_rel (adj V))\<^sup>*" and k: "k < int (distance (adj V) rt v)" by auto
    from reach_ex_is_dist[OF r] obtain n where n: "is_dist (adj V) rt v n" ..
    with is_dist_distance[OF n] k have "(v, n) \<in> set seen \<and> k < int n" unfolding seen(3) by simp
    then show "v \<in> {v. \<exists>n. (v, n) \<in> set seen \<and> k < int n}" by blast
  qed
  with count_filter_snd[OF seen(2), of "\<lambda>l. k < int l"] seen(1)
  show ?thesis by (simp add: bdst_def)
qed

lemma bdst_not_node:
  "rt \<notin> set (nodes (adj V)) \<Longrightarrow> bdst neg_times V rt k beta = Inl KeyError"
  by (simp add: bdst_def sssp_length_not_node)

lemma reach_node:
  assumes "\<forall>u v. has_edge g u v \<longrightarrow> v \<in> set (nodes g)" "s \<in> set (nodes g)" "(s, v) \<in> (edge_rel g)\<^sup>*"
  shows "v \<in> set (nodes g)"
  using assms(3,1,2) by (induction rule: rtrancl_induct) (auto simp: edge_rel_def)

section \<open>The result of Kruskal's algorithm and the degrees\<close>

lemma has_edge_Nil [simp]: "\<not> has_edge [] u v"
  by (simp add: has_edge_def)

lemma sym_add_edge:
  "\<forall>u v. has_edge g u v \<longrightarrow> has_edge g v u \<Longrightarrow>
   \<forall>u v. has_edge (add_edge g a b) u v \<longrightarrow> has_edge (add_edge g a b) v u"
  by (simp add: has_edge_add_edge)

lemma sym_add_edges_from:
  "\<forall>u v. has_edge g u v \<longrightarrow> has_edge g v u \<Longrightarrow>
   \<forall>u v. has_edge (add_edges_from g es) u v \<longrightarrow> has_edge (add_edges_from g es) v u"
  unfolding add_edges_from_def
proof (induction es arbitrary: g)
  case Nil
  then show ?case by simp
next
  case (Cons e es)
  obtain a b where e: "e = (a, b)" by (cases e)
  from Cons.IH[OF sym_add_edge[OF Cons.prems, of a b]] show ?case by (simp add: e)
qed

lemma sym_add_nodes_from:
  "\<forall>u v. has_edge g u v \<longrightarrow> has_edge g v u \<Longrightarrow>
   \<forall>u v. has_edge (add_nodes_from g ns) u v \<longrightarrow> has_edge (add_nodes_from g ns) v u"
  unfolding add_nodes_from_def
  by (induction ns arbitrary: g) simp_all

lemma sym_minimum_spanning_tree:
  "\<forall>u v. has_edge (minimum_spanning_tree w G) u v \<longrightarrow> has_edge (minimum_spanning_tree w G) v u"
proof -
  have "\<forall>u v. has_edge ([] :: 'a graph) u v \<longrightarrow> has_edge [] v u" by simp
  from sym_add_edges_from[OF this] show ?thesis
    unfolding minimum_spanning_tree_def Let_def
    by (auto intro!: sym_add_nodes_from[rule_format])
qed

lemma closed_minimum_spanning_tree:
  "\<forall>u v. has_edge (minimum_spanning_tree w G) u v \<longrightarrow> v \<in> set (nodes (minimum_spanning_tree w G))"
proof (intro allI impI)
  fix u v assume "has_edge (minimum_spanning_tree w G) u v"
  with sym_minimum_spanning_tree[of w G] have "has_edge (minimum_spanning_tree w G) v u" by simp
  then show "v \<in> set (nodes (minimum_spanning_tree w G))" by (rule has_edge_node)
qed


lemma ldst_score:
  assumes wf: "wf_graph (adj T)"
  shows "ldst neg_times T d V beta =
           neg_times beta (card {n \<in> set (nodes (adj T)). d \<le> int (deg (adj T) n)})"
proof -
  let ?g = "adj T"
  from wf have dk: "distinct (map fst ?g)" and dn: "\<And>n ns. (n, ns) \<in> set ?g \<Longrightarrow> distinct ns"
    by (auto simp: wf_graph_def)
  have keys: "map fst (degree ?g) = map fst ?g" by (simp add: degree_def case_prod_beta comp_def)
  have mem: "(n, dg) \<in> set (degree ?g) \<longleftrightarrow> n \<in> set (nodes ?g) \<and> dg = deg ?g n" for n dg
  proof
    assume "(n, dg) \<in> set (degree ?g)"
    then obtain ns where ns: "(n, ns) \<in> set ?g" "dg = length ns + (if n \<in> set ns then 1 else 0)"
      by (auto simp: degree_def)
    with dk have m: "map_of ?g n = Some ns" by simp
    then have "edge_rel ?g `` {n} = set ns" by (auto simp: edge_rel_def has_edge_def)
    moreover have "(n, n) \<in> edge_rel ?g \<longleftrightarrow> n \<in> set ns" using m by (simp add: edge_rel_def has_edge_def)
    moreover have "card (set ns) = length ns" using dn[OF ns(1)] by (rule distinct_card)
    ultimately have "dg = deg ?g n" using ns(2) by (simp add: deg_def)
    moreover from ns(1) have "n \<in> set (nodes ?g)" by (force simp: nodes_def)
    ultimately show "n \<in> set (nodes ?g) \<and> dg = deg ?g n" by simp
  next
    assume a: "n \<in> set (nodes ?g) \<and> dg = deg ?g n"
    then obtain ns where ns: "(n, ns) \<in> set ?g" by (auto simp: nodes_def)
    with dk have m: "map_of ?g n = Some ns" by simp
    then have "edge_rel ?g `` {n} = set ns" by (auto simp: edge_rel_def has_edge_def)
    moreover have "(n, n) \<in> edge_rel ?g \<longleftrightarrow> n \<in> set ns" using m by (simp add: edge_rel_def has_edge_def)
    moreover have "card (set ns) = length ns" using dn[OF ns] by (rule distinct_card)
    ultimately have "deg ?g n = length ns + (if n \<in> set ns then 1 else 0)" by (simp add: deg_def)
    with a ns show "(n, dg) \<in> set (degree ?g)" by (force simp: degree_def)
  qed
  have "length (filter (\<lambda>dg. d \<le> int dg) (map snd (degree ?g))) =
        card {n. \<exists>dg. (n, dg) \<in> set (degree ?g) \<and> d \<le> int dg}"
    by (rule count_filter_snd) (simp add: keys dk)
  also have "{n. \<exists>dg. (n, dg) \<in> set (degree ?g) \<and> d \<le> int dg} =
             {n \<in> set (nodes ?g). d \<le> int (deg ?g n)}"
    unfolding mem by blast
  finally show ?thesis by (simp add: ldst_def)
qed

section \<open>Well-formed graphs stay well-formed\<close>

lemma wf_graph_alt:
  "wf_graph g \<longleftrightarrow>
     distinct (map fst g) \<and> (\<forall>n ns. map_of g n = Some ns \<longrightarrow> distinct ns) \<and>
     (\<forall>u v. has_edge g u v \<longrightarrow> has_edge g v u)"
proof -
  have "(\<forall>ns \<in> snd ` set g. distinct ns) \<longleftrightarrow> (\<forall>n ns. map_of g n = Some ns \<longrightarrow> distinct ns)"
    if "distinct (map fst g)"
  proof
    assume a: "\<forall>ns \<in> snd ` set g. distinct ns"
    show "\<forall>n ns. map_of g n = Some ns \<longrightarrow> distinct ns"
    proof (intro allI impI)
      fix n ns assume "map_of g n = Some ns"
      then have "(n, ns) \<in> set g" by (rule map_of_SomeD)
      then have "ns \<in> snd ` set g" by (rule rev_image_eqI) simp
      with a show "distinct ns" by blast
    qed
  next
    assume a: "\<forall>n ns. map_of g n = Some ns \<longrightarrow> distinct ns"
    show "\<forall>ns \<in> snd ` set g. distinct ns"
    proof
      fix ns assume "ns \<in> snd ` set g"
      then obtain n where "(n, ns) \<in> set g" by auto
      with that have "map_of g n = Some ns" by simp
      with a show "distinct ns" by blast
    qed
  qed
  note eq = this
  show ?thesis
  proof (cases "distinct (map fst g)")
    case True
    with eq[OF True] show ?thesis unfolding wf_graph_def by simp
  next
    case False
    then show ?thesis unfolding wf_graph_def by simp
  qed
qed

lemma distinct_keys_add_node: "distinct (map fst g) \<Longrightarrow> distinct (map fst (add_node g u))"
  by (auto simp: add_node_def map_of_eq_None_iff)

lemma distinct_keys_set_adj: "distinct (map fst g) \<Longrightarrow> distinct (map fst (set_adj g u v))"
  by (simp add: set_adj_def distinct_update split: option.splits)

lemma distinct_keys_add_edge: "distinct (map fst g) \<Longrightarrow> distinct (map fst (add_edge g u v))"
  by (simp add: add_edge_def distinct_keys_set_adj distinct_keys_add_node)

lemma distinct_keys_del_adj:
  "distinct (map fst g) \<Longrightarrow> del_adj g u v = Inr g' \<Longrightarrow> distinct (map fst g')"
  by (auto simp: del_adj_def distinct_update split: option.splits if_splits)

lemma distinct_keys_remove_edge:
  "distinct (map fst g) \<Longrightarrow> remove_edge g u v = Inr g' \<Longrightarrow> distinct (map fst g')"
  by (auto simp: remove_edge_def split: sum.splits if_splits dest: distinct_keys_del_adj)

lemma distinct_nbrsD: "distinct_nbrs g \<Longrightarrow> map_of g n = Some ns \<Longrightarrow> distinct ns"
  unfolding distinct_nbrs_def by blast

lemma distinct_nbrs_add_node: "distinct_nbrs g \<Longrightarrow> distinct_nbrs (add_node g u)"
proof -
  assume a: "distinct_nbrs g"
  have "distinct ns" if "map_of (add_node g u) n = Some ns" for n ns
  proof (cases "n = u \<and> map_of g u = None")
    case True
    with that show ?thesis by (simp add: map_of_add_node)
  next
    case False
    with that have "map_of g n = Some ns" by (simp add: map_of_add_node)
    with a show ?thesis by (rule distinct_nbrsD)
  qed
  then show ?thesis unfolding distinct_nbrs_def by blast
qed

lemma distinct_nbrs_update:
  assumes a: "distinct_nbrs g" and d: "distinct ms"
  shows "distinct_nbrs (AList.update u ms g)"
proof -
  have "distinct ns" if "map_of (AList.update u ms g) n = Some ns" for n ns
  proof (cases "n = u")
    case True
    with that d show ?thesis by (simp add: update_conv')
  next
    case False
    with that have "map_of g n = Some ns" by (simp add: update_conv')
    with a show ?thesis by (rule distinct_nbrsD)
  qed
  then show ?thesis unfolding distinct_nbrs_def by blast
qed

lemma distinct_nbrs_set_adj: "distinct_nbrs g \<Longrightarrow> distinct_nbrs (set_adj g u v)"
proof -
  assume a: "distinct_nbrs g"
  show ?thesis
  proof (cases "map_of g u")
    case None
    then show ?thesis using distinct_nbrs_update[OF a, of "[v]" u] by (simp add: set_adj_def)
  next
    case (Some ns)
    from a Some have "distinct ns" by (rule distinct_nbrsD)
    then have "distinct (setkey ns v)" by (simp add: setkey_def)
    from distinct_nbrs_update[OF a this, of u] Some show ?thesis by (simp add: set_adj_def)
  qed
qed

lemma distinct_nbrs_add_edge: "distinct_nbrs g \<Longrightarrow> distinct_nbrs (add_edge g u v)"
  by (simp add: add_edge_def distinct_nbrs_set_adj distinct_nbrs_add_node)

lemma distinct_nbrs_del_adj:
  assumes a: "distinct_nbrs g" and r: "del_adj g u v = Inr g'"
  shows "distinct_nbrs g'"
proof -
  from r obtain ns where ns: "map_of g u = Some ns" "g' = AList.update u (removeAll v ns) g"
    by (auto simp: del_adj_def split: option.splits if_splits)
  from a ns(1) have "distinct ns" by (rule distinct_nbrsD)
  then have "distinct (removeAll v ns)" by (rule distinct_removeAll)
  from distinct_nbrs_update[OF a this] ns(2) show ?thesis by simp
qed

lemma distinct_nbrs_remove_edge:
  "distinct_nbrs g \<Longrightarrow> remove_edge g u v = Inr g' \<Longrightarrow> distinct_nbrs g'"
  by (auto simp: remove_edge_def split: sum.splits if_splits dest: distinct_nbrs_del_adj)

lemma wf_add_edge: "wf_graph g \<Longrightarrow> wf_graph (add_edge g u v)"
  unfolding wf_graph_alt distinct_nbrs_def[symmetric]
  by (simp add: distinct_keys_add_edge distinct_nbrs_add_edge has_edge_add_edge)

lemma wf_remove_edge:
  assumes "wf_graph g" "remove_edge g u v = Inr g'"
  shows "wf_graph g'"
proof -
  from assms(1) have 1: "distinct (map fst g)" "distinct_nbrs g"
    and s: "\<And>a b. has_edge g a b \<Longrightarrow> has_edge g b a"
    unfolding wf_graph_alt distinct_nbrs_def by blast+
  have "has_edge g' b a" if "has_edge g' a b" for a b
    using that s[of a b] by (auto simp: remove_edge_Inr(3)[OF assms(2)])
  with distinct_keys_remove_edge[OF 1(1) assms(2)] distinct_nbrs_remove_edge[OF 1(2) assms(2)]
  show ?thesis unfolding wf_graph_alt distinct_nbrs_def by blast
qed

section \<open>The list of the edges\<close>

lemma edges_iter_snd_unseen: "(n, v) \<in> set (edges_iter seen g) \<Longrightarrow> v \<notin> set seen"
  by (induction seen g rule: edges_iter.induct) auto

lemma edges_iter_fst_key: "(n, v) \<in> set (edges_iter seen g) \<Longrightarrow> n \<in> fst ` set g"
  by (induction seen g rule: edges_iter.induct) (auto intro: rev_image_eqI)

lemma distinct_edges_iter:
  "distinct (map fst g) \<Longrightarrow> (\<forall>ns \<in> snd ` set g. distinct ns) \<Longrightarrow> distinct (edges_iter seen g)"
proof (induction seen g rule: edges_iter.induct)
  case (1 seen)
  then show ?case by simp
next
  case (2 seen n nbrs rest)
  have a: "distinct (map (Pair n) (filter (\<lambda>nbr. nbr \<notin> set seen) nbrs))"
    using "2.prems"(2) by (simp add: distinct_map inj_on_def)
  have b: "distinct (edges_iter (n # seen) rest)" using 2 by simp
  have c: "set (map (Pair n) (filter (\<lambda>nbr. nbr \<notin> set seen) nbrs)) \<inter> set (edges_iter (n # seen) rest) = {}"
  proof (rule ccontr)
    assume "\<not> ?thesis"
    then obtain e where e: "e \<in> set (map (Pair n) (filter (\<lambda>nbr. nbr \<notin> set seen) nbrs))"
      "e \<in> set (edges_iter (n # seen) rest)" by blast
    then obtain v where "e = (n, v)" by auto
    with e(2) have "n \<in> fst ` set rest" by (auto dest: edges_iter_fst_key)
    with "2.prems"(1) show False by simp
  qed
  from a b c show ?case by simp
qed

lemma edges_iter_antisym:
  "(n, v) \<in> set (edges_iter seen g) \<Longrightarrow> (v, n) \<in> set (edges_iter seen g) \<Longrightarrow> n = v"
proof (induction seen g rule: edges_iter.induct)
  case (1 seen)
  then show ?case by simp
next
  case (2 seen n0 nbrs rest)
  let ?first = "set (map (Pair n0) (filter (\<lambda>nbr. nbr \<notin> set seen) nbrs))"
  let ?rest = "set (edges_iter (n0 # seen) rest)"
  from "2.prems" have nv: "(n, v) \<in> ?first \<or> (n, v) \<in> ?rest" and vn: "(v, n) \<in> ?first \<or> (v, n) \<in> ?rest"
    by simp_all
  have r: "b \<noteq> n0" if "(a, b) \<in> ?rest" for a b
    using edges_iter_snd_unseen[OF that] by simp
  from nv vn consider "(n, v) \<in> ?first" "(v, n) \<in> ?first" | "(n, v) \<in> ?first" "(v, n) \<in> ?rest"
    | "(n, v) \<in> ?rest" "(v, n) \<in> ?first" | "(n, v) \<in> ?rest" "(v, n) \<in> ?rest" by blast
  then show ?case
  proof cases
    case 1
    then show ?thesis by auto
  next
    case 2
    then have "n = n0" by auto
    with r[OF 2(2)] show ?thesis by simp
  next
    case 3
    then have "v = n0" by auto
    with r[OF 3(1)] show ?thesis by simp
  next
    case 4
    then show ?thesis by (rule "2.IH")
  qed
qed

lemma edges_iter_complete:
  assumes "distinct (map fst g)"
    and "(a, na) \<in> set g" "b \<in> set na" "(b, nb) \<in> set g" "a \<in> set nb"
    and "a \<notin> set seen" "b \<notin> set seen"
  shows "(a, b) \<in> set (edges_iter seen g) \<or> (b, a) \<in> set (edges_iter seen g)"
  using assms
proof (induction seen g rule: edges_iter.induct)
  case (1 seen)
  then show ?case by simp
next
  case (2 seen n0 nbrs rest)
  from "2.prems"(1) have dk: "distinct (map fst rest)" and n0: "n0 \<notin> fst ` set rest" by simp_all
  show ?case
  proof (cases "a = n0")
    case True
    with "2.prems"(2) n0 have "na = nbrs" by (auto intro: rev_image_eqI)
    with True "2.prems"(3,7) show ?thesis by simp
  next
    case a: False
    show ?thesis
    proof (cases "b = n0")
      case True
      with "2.prems"(4) n0 have "nb = nbrs" by (auto intro: rev_image_eqI)
      with True "2.prems"(5,6) show ?thesis by simp
    next
      case b: False
      from a b "2.prems" have "(a, na) \<in> set rest" "(b, nb) \<in> set rest"
        "a \<notin> set (n0 # seen)" "b \<notin> set (n0 # seen)" by auto
      from "2.IH"[OF dk this(1) "2.prems"(3) this(2) "2.prems"(5) this(3,4)]
      show ?thesis by auto
    qed
  qed
qed

lemma length_edges_card:
  assumes wf: "wf_graph g"
  shows "length (edges g) = card (uedges (edge_rel g))"
proof -
  let ?f = "\<lambda>(a, b). {a, b}"
  from wf have dk: "distinct (map fst g)" and dn: "\<forall>ns \<in> snd ` set g. distinct ns"
    and sym: "\<And>u v. has_edge g u v \<Longrightarrow> has_edge g v u"
    by (simp_all add: wf_graph_def)
  have d: "distinct (edges g)" unfolding edges_def using dk dn by (rule distinct_edges_iter)
  have inj: "inj_on ?f (set (edges g))"
  proof (rule inj_onI)
    fix x y assume x: "x \<in> set (edges g)" and y: "y \<in> set (edges g)" and eq: "?f x = ?f y"
    obtain a b where xa: "x = (a, b)" by (cases x)
    obtain c e where yc: "y = (c, e)" by (cases y)
    from eq have "(a = c \<and> b = e) \<or> (a = e \<and> b = c)" by (simp add: xa yc doubleton_eq_iff)
    then show "x = y"
    proof
      assume "a = c \<and> b = e" then show ?thesis by (simp add: xa yc)
    next
      assume s: "a = e \<and> b = c"
      with x y have "(a, b) \<in> set (edges_iter [] g)" "(b, a) \<in> set (edges_iter [] g)"
        by (simp_all add: xa yc edges_def)
      then have "a = b" by (rule edges_iter_antisym)
      with s have "a = c" "b = e" by auto
      then show ?thesis by (simp add: xa yc)
    qed
  qed
  have img: "?f ` set (edges g) = uedges (edge_rel g)"
  proof (intro equalityI subsetI)
    fix s assume "s \<in> ?f ` set (edges g)"
    then obtain a b where ab: "(a, b) \<in> set (edges g)" "s = {a, b}" by auto
    from edges_has_edge[OF dk ab(1)] have "(a, b) \<in> edge_rel g" by (simp add: edge_rel_def)
    then show "s \<in> uedges (edge_rel g)" unfolding uedges_def ab(2) by (rule rev_image_eqI) simp
  next
    fix s assume "s \<in> uedges (edge_rel g)"
    then obtain a b where ab: "has_edge g a b" "s = {a, b}" by (auto simp: uedges_def edge_rel_def)
    from ab(1) obtain na where na: "map_of g a = Some na" "b \<in> set na"
      by (cases "map_of g a") (auto simp: has_edge_def)
    from sym[OF ab(1)] obtain nb where nb: "map_of g b = Some nb" "a \<in> set nb"
      by (cases "map_of g b") (auto simp: has_edge_def)
    from edges_iter_complete[OF dk map_of_SomeD[OF na(1)] na(2) map_of_SomeD[OF nb(1)] nb(2), of "[]"]
    have "(a, b) \<in> set (edges g) \<or> (b, a) \<in> set (edges g)" by (simp add: edges_def)
    then show "s \<in> ?f ` set (edges g)"
    proof
      assume "(a, b) \<in> set (edges g)"
      then show ?thesis unfolding ab(2) by (rule rev_image_eqI) simp
    next
      assume "(b, a) \<in> set (edges g)"
      then show ?thesis unfolding ab(2) by (rule rev_image_eqI) (simp add: insert_commute)
    qed
  qed
  have "length (edges g) = card (set (edges g))" using d by (simp add: distinct_card)
  also have "\<dots> = card (?f ` set (edges g))" using inj by (simp add: card_image)
  finally show ?thesis by (simp add: img)
qed

lemma number_of_edges_card: "wf_graph g \<Longrightarrow> number_of_edges g = card (uedges (edge_rel g))"
  unfolding number_of_edges_def by (rule length_edges_card)

section \<open>Swapping an edge of a tree\<close>

lemma rtrancl_insert_both:
  "(x, y) \<in> (insert (a, b) (insert (b, a) R))\<^sup>* \<longleftrightarrow>
     (x, y) \<in> R\<^sup>* \<or> ((x, a) \<in> R\<^sup>* \<and> (b, y) \<in> R\<^sup>*) \<or> ((x, b) \<in> R\<^sup>* \<and> (a, y) \<in> R\<^sup>*)"
  by (auto simp: rtrancl_insert intro: rtrancl_trans)

lemma bridges_Diff: "bridges R \<Longrightarrow> bridges (R - S)"
proof -
  assume R: "bridges R"
  have "(R - S - {(a, b), (b, a)})\<^sup>* \<subseteq> (R - {(a, b), (b, a)})\<^sup>*" for a b
    by (rule rtrancl_mono) blast
  with R show ?thesis unfolding bridges_def by blast
qed

lemma bridges_join:
  assumes sym: "sym R" and R: "bridges R" and uv: "(u, v) \<notin> R\<^sup>*"
  shows "bridges (insert (u, v) (insert (v, u) R))"
  unfolding bridges_def
proof (intro allI impI)
  fix a b
  let ?R' = "insert (u, v) (insert (v, u) R)"
  assume ab: "(a, b) \<in> ?R'"
  have symR: "sym (R\<^sup>*)" using sym by (rule sym_rtrancl)
  have vu: "(v, u) \<notin> R\<^sup>*" using uv symR by (auto dest: symD)
  have uvR: "(u, v) \<notin> R" "(v, u) \<notin> R" using uv vu by auto
  show "(a, b) \<notin> (?R' - {(a, b), (b, a)})\<^sup>*"
  proof (cases "(a, b) = (u, v) \<or> (a, b) = (v, u)")
    case True
    then have "?R' - {(a, b), (b, a)} = R" using uvR by auto
    with True uv vu show ?thesis by auto
  next
    case False
    with ab have abR: "(a, b) \<in> R" by auto
    let ?S = "R - {(a, b), (b, a)}"
    have symS: "sym (?S\<^sup>*)"
      by (rule sym_rtrancl) (use sym in \<open>auto simp: sym_def\<close>)
    have eq: "?R' - {(a, b), (b, a)} = insert (u, v) (insert (v, u) ?S)"
      using False by auto
    have nS: "(a, b) \<notin> ?S\<^sup>*" using R abR by (simp add: bridges_def)
    have SR: "?S\<^sup>* \<subseteq> R\<^sup>*" by (rule rtrancl_mono) blast
    have abs: "(a, b) \<in> R\<^sup>*" "(b, a) \<in> R\<^sup>*" using abR sym by (auto dest: symD)
    show ?thesis
    proof
      assume "(a, b) \<in> (?R' - {(a, b), (b, a)})\<^sup>*"
      then have "(a, b) \<in> ?S\<^sup>* \<or> ((a, u) \<in> ?S\<^sup>* \<and> (v, b) \<in> ?S\<^sup>*) \<or> ((a, v) \<in> ?S\<^sup>* \<and> (u, b) \<in> ?S\<^sup>*)"
        unfolding eq rtrancl_insert_both .
      with nS consider "(a, u) \<in> ?S\<^sup>*" "(v, b) \<in> ?S\<^sup>*" | "(a, v) \<in> ?S\<^sup>*" "(u, b) \<in> ?S\<^sup>*"
        by blast
      then show False
      proof cases
        case 1
        then have "(u, a) \<in> R\<^sup>*" "(b, v) \<in> R\<^sup>*" using symS SR by (auto dest: symD)
        with abs(1) have "(u, v) \<in> R\<^sup>*" by (meson rtrancl_trans)
        with uv show False ..
      next
        case 2
        then have "(v, a) \<in> R\<^sup>*" "(b, u) \<in> R\<^sup>*" using symS SR by (auto dest: symD)
        with abs(1) have "(v, u) \<in> R\<^sup>*" by (meson rtrancl_trans)
        with vu show False ..
      qed
    qed
  qed
qed

lemma successively_rtrancl:
  "successively (\<lambda>a b. (a, b) \<in> R) p \<Longrightarrow> p \<noteq> [] \<Longrightarrow> (hd p, last p) \<in> R\<^sup>*"
proof (induction p)
  case Nil
  then show ?case by simp
next
  case (Cons x p)
  show ?case
  proof (cases p)
    case Nil
    then show ?thesis by simp
  next
    case (Cons y q)
    with Cons.prems have "(x, y) \<in> R" "successively (\<lambda>a b. (a, b) \<in> R) p"
      by (auto simp: successively_Cons)
    with Cons.IH Cons show ?thesis by (auto intro: converse_rtrancl_into_rtrancl)
  qed
qed

lemma successively_sublist_avoid:
  assumes w: "successively (\<lambda>a b. (a, b) \<in> R) p" and d: "distinct p" and i: "Suc i < length p"
  shows "(hd p, p ! i) \<in> (R - {(p ! i, p ! Suc i), (p ! Suc i, p ! i)})\<^sup>*"
    and "(p ! Suc i, last p) \<in> (R - {(p ! i, p ! Suc i), (p ! Suc i, p ! i)})\<^sup>*"
proof -
  let ?S = "R - {(p ! i, p ! Suc i), (p ! Suc i, p ! i)}"
  have step: "(p ! j, p ! Suc j) \<in> ?S" if "Suc j < length p" "j \<noteq> i" for j
  proof -
    have "(p ! j, p ! Suc j) \<in> R" using successively_nth[OF w that(1)] .
    moreover have "p ! j \<noteq> p ! i" using d that i by (simp add: nth_eq_iff_index_eq)
    moreover have "p ! Suc j \<noteq> p ! Suc i" using d that i by (simp add: nth_eq_iff_index_eq)
    moreover have "p ! j = p ! Suc i \<longleftrightarrow> j = Suc i" "p ! Suc j = p ! i \<longleftrightarrow> Suc j = i"
      using d that i by (simp_all add: nth_eq_iff_index_eq)
    ultimately show ?thesis by auto
  qed
  have "successively (\<lambda>a b. (a, b) \<in> ?S) (take (Suc i) p)"
    unfolding successively_conv_nth using step i by auto
  moreover have "take (Suc i) p \<noteq> []" using i by auto
  moreover have "hd (take (Suc i) p) = hd p" by (cases p) simp_all
  moreover have "last (take (Suc i) p) = p ! i" using i by (simp add: take_Suc_conv_app_nth)
  ultimately show "(hd p, p ! i) \<in> ?S\<^sup>*"
    using successively_rtrancl[of ?S "take (Suc i) p"] by simp
  have "successively (\<lambda>a b. (a, b) \<in> ?S) (drop (Suc i) p)"
    unfolding successively_conv_nth using step i by auto
  from successively_rtrancl[OF this] i show "(p ! Suc i, last p) \<in> ?S\<^sup>*"
    by (simp add: hd_drop_conv_nth)
qed


lemma rtrancl_simple_path:
  "(a, b) \<in> R\<^sup>* \<Longrightarrow>
     \<exists>p. p \<noteq> [] \<and> hd p = a \<and> last p = b \<and> distinct p \<and> successively (\<lambda>x y. (x, y) \<in> R) p"
proof (induction rule: converse_rtrancl_induct)
  case base
  have "[b] \<noteq> [] \<and> hd [b] = b \<and> last [b] = b \<and> distinct [b] \<and> successively (\<lambda>x y. (x, y) \<in> R) [b]"
    by simp
  then show ?case by blast
next
  case (step y z)
  then obtain p where p: "p \<noteq> []" "hd p = z" "last p = b" "distinct p"
    "successively (\<lambda>x y. (x, y) \<in> R) p" by blast
  show ?case
  proof (cases "y \<in> set p")
    case True
    let ?q = "dropWhile (\<lambda>x. x \<noteq> y) p"
    have q: "?q \<noteq> []" using True by (simp add: dropWhile_eq_Nil_conv)
    have "hd ?q = y" using hd_dropWhile[OF q] by simp
    moreover have split: "p = takeWhile (\<lambda>x. x \<noteq> y) p @ ?q" by simp
    have "last (takeWhile (\<lambda>x. x \<noteq> y) p @ ?q) = last ?q" using q by (rule last_appendR)
    then have "last ?q = last p" by simp
    moreover have "distinct ?q" using p(4) by (rule distinct_dropWhile)
    moreover have "successively (\<lambda>x y. (x, y) \<in> R) (takeWhile (\<lambda>x. x \<noteq> y) p @ ?q)"
      using p(5) by simp
    then have "successively (\<lambda>x y. (x, y) \<in> R) ?q"
      unfolding successively_append_iff by blast
    ultimately show ?thesis using q p(3) by blast
  next
    case False
    have "y # p \<noteq> [] \<and> hd (y # p) = y \<and> last (y # p) = b \<and> distinct (y # p) \<and>
          successively (\<lambda>x y. (x, y) \<in> R) (y # p)"
      using p False step.hyps(1) by (simp add: successively_Cons)
    then show ?thesis by blast
  qed
qed

lemma swap_connected:
  assumes sym: "sym R" and w: "successively (\<lambda>a b. (a, b) \<in> R) p" and d: "distinct p"
    and i: "Suc i < length p"
  shows "R\<^sup>* \<subseteq> (insert (hd p, last p) (insert (last p, hd p)
                  (R - {(p ! i, p ! Suc i), (p ! Suc i, p ! i)})))\<^sup>*"
proof -
  let ?x = "p ! i" and ?y = "p ! Suc i" and ?u = "hd p" and ?v = "last p"
  let ?S = "R - {(?x, ?y), (?y, ?x)}"
  let ?R' = "insert (?u, ?v) (insert (?v, ?u) ?S)"
  have symS: "sym (?S\<^sup>*)" by (rule sym_rtrancl) (use sym in \<open>auto simp: sym_def\<close>)
  note av = successively_sublist_avoid[OF w d i]
  have SR': "?S\<^sup>* \<subseteq> ?R'\<^sup>*" by (rule rtrancl_mono) blast
  have ux: "(?u, ?x) \<in> ?R'\<^sup>*" "(?x, ?u) \<in> ?R'\<^sup>*" using av(1) symS SR' by (auto dest: symD)
  have yv: "(?y, ?v) \<in> ?R'\<^sup>*" "(?v, ?y) \<in> ?R'\<^sup>*" using av(2) symS SR' by (auto dest: symD)
  have uv: "(?u, ?v) \<in> ?R'\<^sup>*" "(?v, ?u) \<in> ?R'\<^sup>*" by blast+
  have xy: "(?x, ?y) \<in> ?R'\<^sup>*" using ux(2) uv(1) yv(2) by (meson rtrancl_trans)
  have yx: "(?y, ?x) \<in> ?R'\<^sup>*" using yv(1) uv(2) ux(1) by (meson rtrancl_trans)
  have "R \<subseteq> insert (?x, ?y) (insert (?y, ?x) ?S)" by blast
  then have "R\<^sup>* \<subseteq> (insert (?x, ?y) (insert (?y, ?x) ?S))\<^sup>*" by (rule rtrancl_mono)
  also have "\<dots> \<subseteq> ?R'\<^sup>*"
  proof
    fix e assume e: "e \<in> (insert (?x, ?y) (insert (?y, ?x) ?S))\<^sup>*"
    obtain a b where ab: "e = (a, b)" by (cases e)
    from e[unfolded ab rtrancl_insert_both]
    consider "(a, b) \<in> ?S\<^sup>*" | "(a, ?x) \<in> ?S\<^sup>*" "(?y, b) \<in> ?S\<^sup>*"
      | "(a, ?y) \<in> ?S\<^sup>*" "(?x, b) \<in> ?S\<^sup>*" by blast
    then have "(a, b) \<in> ?R'\<^sup>*"
    proof cases
      case 1
      with SR' show ?thesis by blast
    next
      case 2
      with SR' have "(a, ?x) \<in> ?R'\<^sup>*" "(?y, b) \<in> ?R'\<^sup>*" by blast+
      with xy show ?thesis by (meson rtrancl_trans)
    next
      case 3
      with SR' have "(a, ?y) \<in> ?R'\<^sup>*" "(?x, b) \<in> ?R'\<^sup>*" by blast+
      with yx show ?thesis by (meson rtrancl_trans)
    qed
    then show "e \<in> ?R'\<^sup>*" by (simp add: ab)
  qed
  finally show ?thesis .
qed

lemma swap_bridges:
  assumes sym: "sym R" and br: "bridges R"
    and w: "successively (\<lambda>a b. (a, b) \<in> R) p" and d: "distinct p" and i: "Suc i < length p"
  shows "bridges (insert (hd p, last p) (insert (last p, hd p)
                  (R - {(p ! i, p ! Suc i), (p ! Suc i, p ! i)})))"
proof -
  let ?x = "p ! i" and ?y = "p ! Suc i" and ?u = "hd p" and ?v = "last p"
  let ?S = "R - {(?x, ?y), (?y, ?x)}"
  have symS0: "sym ?S" using sym by (auto simp: sym_def)
  then have symS: "sym (?S\<^sup>*)" by (rule sym_rtrancl)
  note av = successively_sublist_avoid[OF w d i]
  have xyR: "(?x, ?y) \<in> R" using successively_nth[OF w i] .
  with br have nxy: "(?x, ?y) \<notin> ?S\<^sup>*" by (simp add: bridges_def)
  have "(?u, ?v) \<notin> ?S\<^sup>*"
  proof
    assume "(?u, ?v) \<in> ?S\<^sup>*"
    moreover from av(1) symS have "(?x, ?u) \<in> ?S\<^sup>*" by (auto dest: symD)
    ultimately have "(?x, ?y) \<in> ?S\<^sup>*" using av(2) symS
      by (meson rtrancl_trans symD)
    with nxy show False ..
  qed
  with symS0 bridges_Diff[OF br] show ?thesis by (intro bridges_join)
qed

lemma uedges_insert: "uedges (insert (u, v) (insert (v, u) R)) = insert {u, v} (uedges R)"
  by (auto simp: uedges_def insert_commute)

lemma uedges_Diff:
  "uedges (R - {(x, y), (y, x)}) = uedges R - {{x, y}}"
proof (intro equalityI subsetI)
  fix e assume "e \<in> uedges (R - {(x, y), (y, x)})"
  then obtain a b where ab: "e = {a, b}" "(a, b) \<in> R" "(a, b) \<noteq> (x, y)" "(a, b) \<noteq> (y, x)"
    by (auto simp: uedges_def)
  then have "{a, b} \<noteq> {x, y}" by (auto simp: doubleton_eq_iff)
  with ab show "e \<in> uedges R - {{x, y}}" by (auto simp: uedges_def)
next
  fix e assume "e \<in> uedges R - {{x, y}}"
  then obtain a b where ab: "e = {a, b}" "(a, b) \<in> R" "{a, b} \<noteq> {x, y}"
    by (auto simp: uedges_def)
  then have "(a, b) \<noteq> (x, y)" "(a, b) \<noteq> (y, x)" by (auto simp: doubleton_eq_iff)
  with ab have "(a, b) \<in> R - {(x, y), (y, x)}" by simp
  then show "e \<in> uedges (R - {(x, y), (y, x)})" unfolding uedges_def ab(1)
    by (rule rev_image_eqI) simp
qed

lemma card_uedges_swap:
  assumes fin: "finite R" and sym: "sym R" and xy: "(x, y) \<in> R" and uv: "(u, v) \<notin> R"
  shows "card (uedges (insert (u, v) (insert (v, u) (R - {(x, y), (y, x)})))) = card (uedges R)"
proof -
  have f: "finite (uedges R)" using fin by (simp add: uedges_def)
  have vu: "(v, u) \<notin> R" using uv sym by (auto dest: symD)
  have nin: "{u, v} \<notin> uedges R"
  proof
    assume "{u, v} \<in> uedges R"
    then obtain a b where "(a, b) \<in> R" "{u, v} = {a, b}" by (auto simp: uedges_def)
    with uv vu show False by (auto simp: doubleton_eq_iff)
  qed
  have xin: "{x, y} \<in> uedges R" unfolding uedges_def using xy by (rule rev_image_eqI) simp
  have "card (insert {u, v} (uedges R - {{x, y}})) = Suc (card (uedges R - {{x, y}}))"
    using f nin by (intro card_insert_disjoint) auto
  also have "\<dots> = card (uedges R)" using f xin by (rule card_Suc_Diff1)
  finally show ?thesis by (simp add: uedges_insert uedges_Diff)
qed

lemma sym_edge_rel: "wf_graph g \<Longrightarrow> sym (edge_rel g)"
  by (simp add: wf_graph_def sym_def edge_rel_def)

lemma finite_edge_rel: "finite (edge_rel g)"
proof -
  have "edge_rel g \<subseteq> set (nodes g) \<times> \<Union> (set ` snd ` set g)"
  proof
    fix e assume "e \<in> edge_rel g"
    then obtain u v where e: "e = (u, v)" "has_edge g u v" by (auto simp: edge_rel_def)
    then obtain ns where ns: "map_of g u = Some ns" "v \<in> set ns"
      by (cases "map_of g u") (auto simp: has_edge_def)
    from ns(1) have m: "(u, ns) \<in> set g" by (rule map_of_SomeD)
    then have "ns \<in> snd ` set g" by (rule rev_image_eqI) simp
    with ns(2) have "v \<in> \<Union> (set ` snd ` set g)" by blast
    moreover from m have "u \<in> set (nodes g)" unfolding nodes_def by (force intro: rev_image_eqI)
    ultimately show "e \<in> set (nodes g) \<times> \<Union> (set ` snd ` set g)" by (simp add: e)
  qed
  moreover have "finite (set (nodes g) \<times> \<Union> (set ` snd ` set g))" by simp
  ultimately show ?thesis by (rule finite_subset)
qed

lemma successively_edge_rel:
  "successively (\<lambda>a b. (a, b) \<in> edge_rel g) p = successively (has_edge g) p"
  by (simp add: edge_rel_def)

lemma bridges_acyclic:
  assumes sym: "sym (edge_rel g)" and br: "bridges (edge_rel g)"
  shows "acyclic_graph g"
  unfolding acyclic_graph_def
proof
  let ?E = "edge_rel g"
  assume "\<exists>c. cycle g c"
  then obtain c where c: "c \<noteq> []" "successively (has_edge g) c" "distinct c"
    "has_edge g (last c) (hd c)" "length c = 1 \<or> 3 \<le> length c"
    by (auto simp: cycle_def walk_def)
  from c(5) show False
  proof
    assume "length c = 1"
    then obtain a where "c = [a]" by (cases c) auto
    with c(4) have "(a, a) \<in> ?E" by (simp add: edge_rel_def)
    with br have "(a, a) \<notin> (?E - {(a, a), (a, a)})\<^sup>*" unfolding bridges_def by blast
    then show False by simp
  next
    assume len: "3 \<le> length c"
    then have i: "Suc 0 < length c" by simp
    let ?S = "?E - {(c ! 0, c ! Suc 0), (c ! Suc 0, c ! 0)}"
    have w: "successively (\<lambda>a b. (a, b) \<in> ?E) c" using c(2) by (simp add: successively_edge_rel)
    from successively_sublist_avoid(2)[OF w c(3) i]
    have 1: "(c ! Suc 0, last c) \<in> ?S\<^sup>*" .
    have hd: "hd c = c ! 0" and last: "last c = c ! (length c - 1)"
      using c(1) by (simp_all add: hd_conv_nth last_conv_nth)
    from len have l: "length c - 1 < length c" "0 < length c" "Suc 0 < length c"
      and n: "length c - 1 \<noteq> 0" "length c - 1 \<noteq> Suc 0" by arith+
    from n have "last c \<noteq> c ! 0" "last c \<noteq> c ! Suc 0"
      unfolding last nth_eq_iff_index_eq[OF c(3) l(1) l(2)] nth_eq_iff_index_eq[OF c(3) l(1) l(3)]
      by blast+
    with c(4) have "(last c, c ! 0) \<in> ?S" by (auto simp: edge_rel_def hd)
    with 1 have "(c ! Suc 0, c ! 0) \<in> ?S\<^sup>*" by (rule rtrancl_into_rtrancl)
    moreover have "sym (?S\<^sup>*)" by (rule sym_rtrancl) (use sym in \<open>auto simp: sym_def\<close>)
    ultimately have "(c ! 0, c ! Suc 0) \<in> ?S\<^sup>*" by (auto dest: symD)
    moreover have "(c ! 0, c ! Suc 0) \<in> ?E" using successively_nth[OF w i] .
    ultimately show False using br unfolding bridges_def by blast
  qed
qed

lemma acyclic_bridges:
  assumes sym: "sym (edge_rel g)" and ac: "acyclic_graph g"
  shows "bridges (edge_rel g)"
  unfolding bridges_def
proof (intro allI impI notI)
  let ?E = "edge_rel g"
  fix a b assume ab: "(a, b) \<in> ?E" and r: "(a, b) \<in> (?E - {(a, b), (b, a)})\<^sup>*"
  let ?S = "?E - {(a, b), (b, a)}"
  from rtrancl_simple_path[OF r] obtain p where p: "p \<noteq> []" "hd p = a" "last p = b" "distinct p"
    "successively (\<lambda>x y. (x, y) \<in> ?S) p" by blast
  have w: "successively (has_edge g) p"
    by (rule successively_mono[OF p(5)]) (simp add: edge_rel_def)
  have ba: "has_edge g (last p) (hd p)" using ab sym p(2,3) by (auto simp: edge_rel_def dest: symD)
  have "length p = 1 \<or> 3 \<le> length p"
  proof (rule ccontr)
    assume "\<not> (length p = 1 \<or> 3 \<le> length p)"
    moreover from p(1) have "length p \<noteq> 0" by simp
    ultimately have "length p = 2" by arith
    then obtain x y where xy: "p = [x, y]" by (cases p; cases "tl p") auto
    with p(2,3) have "x = a" "y = b" by simp_all
    with p(5) xy show False by simp
  qed
  with p(1,4) w ba have "cycle g p" by (simp add: cycle_def walk_def)
  with ac show False unfolding acyclic_graph_def by blast
qed

lemma edge_rel_add_edge:
  "edge_rel (add_edge g u v) = insert (u, v) (insert (v, u) (edge_rel g))"
  by (auto simp: edge_rel_def has_edge_add_edge)

lemma edge_rel_remove_edge:
  "remove_edge g u v = Inr g' \<Longrightarrow> edge_rel g' = edge_rel g - {(u, v), (v, u)}"
  by (auto simp: edge_rel_def remove_edge_Inr(3))

lemma propose_reject_restores:
  assumes wf: "wf_graph (adj T)" and pr: "propose T ds = Some (Inr (T', ds'))"
  shows "\<exists>T''. reject T' = Inr T'' \<and> edge_rel (adj T'') = edge_rel (adj T) \<and>
           set (nodes (adj T'')) = set (nodes (adj T)) \<and> base_graph T'' = base_graph T \<and>
           wf_graph (adj T'')"
proof -
  from pr obtain uo vo un vn g1 p where s:
    "u_old T' = Some uo" "v_old T' = Some vo" "u_new T' = Some un" "v_new T' = Some vn"
    "has_edge (adj T) uo vo" "has_edge (adj T) vo uo" "\<not> has_edge (adj T) un vn"
    "remove_edge (adj T) uo vo = Inr g1" "adj T' = add_edge g1 un vn"
    "base_graph T' = base_graph T" "has_edge (adj T) un (p ! 1)"
    "has_edge (adj T) (p ! (length p - 2)) vn"
    by (rule propose_swap)
  from wf s(7) have nvu: "\<not> has_edge (adj T) vn un" by (auto simp: wf_graph_def)
  let ?g2 = "add_edge (adj T') uo vo"
  have h: "has_edge ?g2 un vn" "has_edge ?g2 vn un"
    by (simp_all add: has_edge_add_edge s(9))
  from remove_edge_succeeds[OF h] obtain g3 where g3: "remove_edge ?g2 un vn = Inr g3" by blast
  then have rj: "reject T' = Inr (T'\<lparr>adj := g3\<rparr>)" by (simp add: reject_def s)
  have eq: "has_edge g3 x y \<longleftrightarrow> has_edge (adj T) x y" for x y
    using s(5,6,7) nvu
    by (auto simp: remove_edge_Inr(3)[OF g3] has_edge_add_edge s(9) remove_edge_Inr(3)[OF s(8)])
  then have er: "edge_rel g3 = edge_rel (adj T)" by (simp add: edge_rel_def)
  from wf s(12) have "has_edge (adj T) vn (p ! (length p - 2))" by (simp add: wf_graph_def)
  note has_edge_node[OF this] has_edge_node[OF s(5)] has_edge_node[OF s(6)] has_edge_node[OF s(11)]
  then have nd: "{uo, vo, un, vn} \<subseteq> set (nodes (adj T))" by simp
  have "set (nodes g3) = set (nodes (adj T))"
    using nd by (auto simp: nodes_remove_edge[OF g3] nodes_add_edge s(9) nodes_remove_edge[OF s(8)])
  moreover have "wf_graph g3"
    using wf_remove_edge[OF wf_add_edge[OF wf_add_edge[OF wf_remove_edge[OF wf s(8)]]], of un vn uo vo un vn g3]
      g3 s(9) by simp
  ultimately show ?thesis using er rj s(10) by simp
qed

lemma has_edge_edge_rel: "has_edge g u v \<longleftrightarrow> (u, v) \<in> edge_rel g"
  by (simp add: edge_rel_def)

lemma acyclic_graph_cong:
  assumes "edge_rel g = edge_rel g'"
  shows "acyclic_graph g = acyclic_graph g'"
proof -
  from assms have "has_edge g = has_edge g'" by (intro ext) (simp add: has_edge_edge_rel)
  then show ?thesis by (simp add: acyclic_graph_def cycle_def walk_def)
qed

lemma length_nodes_card: "distinct (map fst g) \<Longrightarrow> length (nodes g) = card (set (nodes g))"
  unfolding nodes_def using distinct_card[of "map fst g"] by simp

lemma spanning_tree_cong:
  assumes st: "spanning_tree T" and wf: "wf_graph (adj T2)"
    and er: "edge_rel (adj T2) = edge_rel (adj T)"
    and nd: "set (nodes (adj T2)) = set (nodes (adj T))" and bg: "base_graph T2 = base_graph T"
  shows "spanning_tree T2"
proof -
  from st wf have "distinct (map fst (adj T))" "distinct (map fst (adj T2))"
    by (simp_all add: spanning_tree_def wf_graph_def)
  then have "length (nodes (adj T2)) = length (nodes (adj T))"
    by (simp add: length_nodes_card nd)
  moreover have "acyclic_graph (adj T2) = acyclic_graph (adj T)" using er by (rule acyclic_graph_cong)
  moreover from st have "wf_graph (adj T)" by (simp add: spanning_tree_def)
  then have "number_of_edges (adj T2) = number_of_edges (adj T)"
    using wf er by (simp add: number_of_edges_card)
  ultimately show ?thesis
    using st wf er nd bg by (simp add: spanning_tree_def connected_graph_def)
qed

lemma propose_swap_tree:
  assumes st: "spanning_tree T" and pr: "propose T ds = Some (Inr (T', ds'))"
  shows "spanning_tree T'"
proof -
  let ?g = "adj T" and ?G = "base_graph T"
  let ?E = "edge_rel ?g"
  from st have wf: "wf_graph ?g" and wfG: "wf_graph ?G"
    and nd: "set (nodes ?g) = set (nodes ?G)" and sub: "?E \<subseteq> edge_rel ?G"
    and ne: "number_of_edges ?g = length (nodes ?g) - 1"
    and conn: "connected_graph ?g" and ac: "acyclic_graph ?g"
    by (simp_all add: spanning_tree_def)
  from pr obtain e0 es un vn ds1 p i g1 where
    e0: "edges ?g = e0 # es" and
    rs: "resample ?g ?G e0 ds = Some (Inr ((un, vn), ds1))" and
    sp: "shortest_path ?g un vn = Inr p" and
    rr: "randrange (int (length p) - 1) ds1 = Some (Inr (i, ds'))" and
    rm: "remove_edge ?g (p ! i) (p ! (i + 1)) = Inr g1" and
    T': "T' = T\<lparr>adj := add_edge g1 un vn, u_new := Some un, v_new := Some vn, path := Some p,
            u_old := Some (p ! i), v_old := Some (p ! (i + 1))\<rparr>"
    by (rule propose_Inr)
  let ?x = "p ! i" and ?y = "p ! Suc i"
  have adj': "adj T' = add_edge g1 un vn" and bg': "base_graph T' = ?G" by (simp_all add: T')
  from randrange_Inr[OF rr] have i: "Suc i < length p" by auto
  note spp = shortest_path_Inr[OF sp]
  have w: "successively (\<lambda>a b. (a, b) \<in> ?E) p" using spp(5) by (simp add: successively_edge_rel)
  have sym: "sym ?E" using wf by (rule sym_edge_rel)
  \<comment> \<open>the new edge\<close>
  from e0 have "(fst e0, snd e0) \<in> set (edges ?g)" by simp
  with wf have "has_edge ?g (fst e0) (snd e0)"
    by (intro edges_has_edge) (simp_all add: wf_graph_def)
  from resample_Inr[OF rs this] obtain n where
    "(un, vn) = choice (edges ?G) (ds ! n)" "edges ?G \<noteq> []" and nuv: "\<not> has_edge ?g un vn"
    by auto
  then have "(un, vn) \<in> set (edges ?G)" by (simp add: choice_mem)
  with wfG have "has_edge ?G un vn" by (intro edges_has_edge) (simp_all add: wf_graph_def)
  with wfG have inG: "(un, vn) \<in> edge_rel ?G" "(vn, un) \<in> edge_rel ?G"
    by (simp_all add: wf_graph_def edge_rel_def)
  \<comment> \<open>the edges and the nodes after the swap\<close>
  have E': "edge_rel (adj T') = insert (hd p, last p) (insert (last p, hd p) (?E - {(?x, ?y), (?y, ?x)}))"
    unfolding adj' edge_rel_add_edge using edge_rel_remove_edge[OF rm] spp(2,3) by simp
  have wf': "wf_graph (adj T')"
    unfolding adj' by (rule wf_add_edge[OF wf_remove_edge[OF wf rm]])
  from i have "Suc 0 < length p" "Suc (length p - 2) < length p" by arith+
  note this[THEN successively_nth[OF spp(5)]]
  moreover from i spp(1) have "hd p = p ! 0" "last p = p ! Suc (length p - 2)"
    by (simp_all add: hd_conv_nth last_conv_nth Suc_diff_Suc numeral_2_eq_2)
  ultimately have "has_edge ?g un (p ! Suc 0)" "has_edge ?g (p ! (length p - 2)) vn"
    using spp(2,3) by simp_all
  with wf have "has_edge ?g un (p ! Suc 0)" "has_edge ?g vn (p ! (length p - 2))"
    by (simp_all add: wf_graph_def)
  then have "un \<in> set (nodes ?g)" "vn \<in> set (nodes ?g)" by (auto dest: has_edge_node)
  then have nd': "set (nodes (adj T')) = set (nodes ?g)"
    unfolding adj' by (auto simp: nodes_add_edge nodes_remove_edge[OF rm])
  \<comment> \<open>the number of edges\<close>
  have xy: "(?x, ?y) \<in> ?E" using successively_nth[OF w i] .
  have "(hd p, last p) \<notin> ?E" using nuv spp(2,3) by (simp add: edge_rel_def)
  from card_uedges_swap[OF finite_edge_rel sym xy this]
  have "number_of_edges (adj T') = number_of_edges ?g"
    unfolding number_of_edges_card[OF wf'] number_of_edges_card[OF wf] E' .
  moreover have "length (nodes (adj T')) = length (nodes ?g)"
    using wf wf' nd' by (simp add: length_nodes_card wf_graph_def)
  ultimately have ne': "number_of_edges (adj T') = length (nodes (adj T')) - 1"
    using ne by simp
  \<comment> \<open>connected_graph\<close>
  have "?E\<^sup>* \<subseteq> (edge_rel (adj T'))\<^sup>*"
    unfolding E' by (rule swap_connected[OF sym w spp(4) i])
  with conn have conn': "connected_graph (adj T')"
    unfolding connected_graph_def nd' by blast
  \<comment> \<open>no cycle\<close>
  have "bridges (edge_rel (adj T'))"
    unfolding E' by (rule swap_bridges[OF sym acyclic_bridges[OF sym ac] w spp(4) i])
  with sym_edge_rel[OF wf'] have ac': "acyclic_graph (adj T')" by (rule bridges_acyclic)
  have "edge_rel (adj T') \<subseteq> edge_rel ?G"
    unfolding E' using sub inG spp(2,3) by auto
  with wf' wfG nd' nd ne' conn' ac' show ?thesis
    by (simp add: spanning_tree_def bg')
qed

section \<open>When the proposal returns\<close>

text \<open>
  On a spanning tree \<^verbatim>\<open>propose\<close> returns as soon as a draw gives an edge of the base graph
  that is not in the tree and is not a self-loop, and one more draw is there for the
  index: the loop ends at that draw, \<^verbatim>\<open>nx.shortest_path\<close> finds the path, the range of
  \<^verbatim>\<open>randrange\<close> is not empty and the edge to remove is in the tree.
\<close>

lemma resample_returns:
  assumes ne: "edges G \<noteq> []"
  shows "n < length ds \<Longrightarrow> has_edge T (fst e) (snd e) \<Longrightarrow>
     (\<forall>j<n. has_edge T (fst (choice (edges G) (ds ! j))) (snd (choice (edges G) (ds ! j)))) \<Longrightarrow>
     \<not> has_edge T (fst (choice (edges G) (ds ! n))) (snd (choice (edges G) (ds ! n))) \<Longrightarrow>
     resample T G e ds = Some (Inr (choice (edges G) (ds ! n), drop (Suc n) ds))"
proof (induction n arbitrary: e ds)
  case 0
  then obtain r rs where ds: "ds = r # rs" by (cases ds) auto
  obtain a b where e: "e = (a, b)" by (cases e)
  obtain c d where c: "choice (edges G) r = (c, d)" by (cases "choice (edges G) r")
  from 0 ne show ?case by (simp add: ds e c)
next
  case (Suc n)
  then obtain r rs where ds: "ds = r # rs" by (cases ds) auto
  obtain a b where e: "e = (a, b)" by (cases e)
  from Suc.prems(3) have h0: "has_edge T (fst (choice (edges G) r)) (snd (choice (edges G) r))"
    by (auto simp: ds dest: spec[of _ 0])
  from Suc.prems(3) have hj: "\<forall>j<n. has_edge T (fst (choice (edges G) (rs ! j))) (snd (choice (edges G) (rs ! j)))"
    by (auto simp: ds dest: spec[of _ "Suc _"])
  from Suc.prems(1,4) have "n < length rs"
    "\<not> has_edge T (fst (choice (edges G) (rs ! n))) (snd (choice (edges G) (rs ! n)))"
    by (simp_all add: ds)
  from Suc.IH[OF this(1) h0 hj this(2)] Suc.prems(2) ne show ?case by (simp add: ds e)
qed

lemma simple_paths_complete:
  "p \<noteq> [] \<Longrightarrow> hd p = s \<Longrightarrow> distinct p \<Longrightarrow> successively (has_edge g) p \<Longrightarrow>
     p \<in> set (simple_paths g s (length p - 1))"
proof (induction p rule: rev_induct)
  case Nil
  then show ?case by simp
next
  case (snoc w q)
  show ?case
  proof (cases "q = []")
    case True
    with snoc.prems show ?thesis by simp
  next
    case False
    with snoc.prems have q: "hd q = s" "distinct q" "successively (has_edge g) q"
      and w: "w \<notin> set q" "has_edge g (last q) w"
      by (auto simp: successively_append_iff)
    from snoc.IH[OF False q] have IH: "q \<in> set (simple_paths g s (length q - 1))" .
    from w(2) obtain ns where ns: "map_of g (last q) = Some ns" "w \<in> set ns"
      by (cases "map_of g (last q)") (auto simp: has_edge_def)
    from False have len: "length (q @ [w]) - 1 = Suc (length q - 1)" by (cases q) auto
    show ?thesis unfolding len
      using IH ns w(1) by (auto intro!: bexI[of _ q])
  qed
qed

lemma walk_nodes:
  assumes cl: "\<forall>u v. has_edge g u v \<longrightarrow> v \<in> set (nodes g)"
    and w: "successively (has_edge g) p" and len: "2 \<le> length p"
  shows "set p \<subseteq> set (nodes g)"
proof
  fix x assume "x \<in> set p"
  then obtain j where j: "j < length p" "x = p ! j" by (auto simp: in_set_conv_nth)
  show "x \<in> set (nodes g)"
  proof (cases j)
    case 0
    from len have "Suc 0 < length p" by simp
    from successively_nth[OF w this] have "has_edge g (p ! 0) (p ! Suc 0)" .
    then show ?thesis unfolding j(2) 0 by (rule has_edge_node)
  next
    case (Suc k)
    with j(1) have "Suc k < length p" by simp
    from successively_nth[OF w this] have "has_edge g (p ! k) (p ! Suc k)" .
    with cl show ?thesis unfolding j(2) Suc by blast
  qed
qed

lemma shortest_path_complete:
  assumes cl: "\<forall>u v. has_edge g u v \<longrightarrow> v \<in> set (nodes g)"
    and r: "(s, t) \<in> (edge_rel g)\<^sup>*" and ne: "s \<noteq> t"
  shows "\<exists>p. shortest_path g s t = Inr p"
proof -
  from rtrancl_simple_path[OF r] obtain p where p: "p \<noteq> []" "hd p = s" "last p = t" "distinct p"
    "successively (\<lambda>x y. (x, y) \<in> edge_rel g) p" by blast
  then have w: "successively (has_edge g) p" by (simp add: successively_edge_rel)
  have len: "2 \<le> length p"
  proof (rule ccontr)
    assume "\<not> 2 \<le> length p"
    moreover from p(1) have "length p \<noteq> 0" by simp
    ultimately have "length p = 1" by arith
    then obtain x where "p = [x]" by (cases p) auto
    with p(2,3) ne show False by simp
  qed
  from walk_nodes[OF cl w len] have "card (set p) \<le> card (set (nodes g))"
    by (intro card_mono) simp_all
  also have "\<dots> \<le> length (nodes g)" by (rule card_length)
  finally have "length p \<le> length g" using p(4) by (simp add: distinct_card nodes_def)
  with len have k: "length p - 1 \<in> set [1..<length g]" by auto
  from simple_paths_complete[OF p(1,2,4) w]
  have "p \<in> set (concat (map (simple_paths g s) [1..<length g]))"
    using k by (auto intro!: bexI[of _ "length p - 1"])
  with p(3) have "p \<in> set (filter (\<lambda>p. last p = t) (concat (map (simple_paths g s) [1..<length g])))"
    by simp
  then have "filter (\<lambda>p. last p = t) (concat (map (simple_paths g s) [1..<length g])) \<noteq> []"
    by (metis empty_iff list.set(1))
  then obtain q qs where
    "filter (\<lambda>p. last p = t) (concat (map (simple_paths g s) [1..<length g])) = q # qs"
    by (meson neq_Nil_conv)
  with ne show ?thesis by (simp add: shortest_path_def)
qed

lemma edges_nonempty:
  assumes wf: "wf_graph g" and e: "has_edge g a b"
  shows "edges g \<noteq> []"
proof -
  have "{a, b} \<in> uedges (edge_rel g)"
    unfolding uedges_def using e by (intro rev_image_eqI[of "(a, b)"]) (simp_all add: edge_rel_def)
  moreover have "finite (uedges (edge_rel g))" using finite_edge_rel[of g] by (simp add: uedges_def)
  ultimately have "0 < card (uedges (edge_rel g))" by (auto simp: card_gt_0_iff)
  with length_edges_card[OF wf] show ?thesis by auto
qed

lemma propose_returns:
  assumes st: "spanning_tree T"
    and n: "Suc n < length ds"
    and before: "\<forall>j<n. choice (edges (base_graph T)) (ds ! j) \<in> edge_rel (adj T)"
    and at: "choice (edges (base_graph T)) (ds ! n) = (u, v)"
    and ne: "edges (base_graph T) \<noteq> []"
    and nuv: "(u, v) \<notin> edge_rel (adj T)" and uv: "u \<noteq> v"
  shows "\<exists>T'. propose T ds = Some (Inr (T', drop (n + 2) ds))"
proof -
  let ?g = "adj T" and ?G = "base_graph T"
  from st have wf: "wf_graph ?g" and wfG: "wf_graph ?G"
    and nd: "set (nodes ?g) = set (nodes ?G)" and conn: "connected_graph ?g"
    by (simp_all add: spanning_tree_def)
  from at ne have "(u, v) \<in> set (edges ?G)" using choice_mem[OF ne, of "ds ! n"] by simp
  with wfG have "has_edge ?G u v" by (intro edges_has_edge) (simp_all add: wf_graph_def)
  with wfG have "has_edge ?G u v" "has_edge ?G v u" by (simp_all add: wf_graph_def)
  then have "u \<in> set (nodes ?g)" "v \<in> set (nodes ?g)" unfolding nd by (auto dest: has_edge_node)
  with conn have r: "(u, v) \<in> (edge_rel ?g)\<^sup>*" unfolding connected_graph_def by blast
  from shortest_path_complete[OF wf_graph_closed[OF wf] r uv]
  obtain p where sp: "shortest_path ?g u v = Inr p" ..
  note spp = shortest_path_Inr[OF sp]
  from spp(6)[OF uv] have len: "2 \<le> length p" .
  \<comment> \<open>the tree has an edge, so \<^verbatim>\<open>T.edges()[0]\<close> is there\<close>
  from len have "Suc 0 < length p" by simp
  from successively_nth[OF spp(5) this] have "has_edge ?g (p ! 0) (p ! Suc 0)" .
  from edges_nonempty[OF wf this] obtain e0 es where e0: "edges ?g = e0 # es"
    by (meson neq_Nil_conv)
  then have "(fst e0, snd e0) \<in> set (edges ?g)" by simp
  with wf have he0: "has_edge ?g (fst e0) (snd e0)"
    by (intro edges_has_edge) (simp_all add: wf_graph_def)
  \<comment> \<open>the loop ends at the draw \<open>n\<close>\<close>
  from before have b: "\<forall>j<n. has_edge ?g (fst (choice (edges ?G) (ds ! j))) (snd (choice (edges ?G) (ds ! j)))"
    by (simp add: edge_rel_def case_prod_beta)
  from nuv at have a: "\<not> has_edge ?g (fst (choice (edges ?G) (ds ! n))) (snd (choice (edges ?G) (ds ! n)))"
    by (simp add: edge_rel_def)
  from n have "n < length ds" by simp
  from resample_returns[OF ne this he0 b a]
  have rs: "resample ?g ?G e0 ds = Some (Inr ((u, v), drop (Suc n) ds))" by (simp add: at)
  \<comment> \<open>the index and the removal\<close>
  from n have dr: "drop (Suc n) ds = ds ! Suc n # drop (n + 2) ds"
    by (simp add: Cons_nth_drop_Suc)
  let ?i = "ds ! Suc n mod nat (int (length p) - 1)"
  from len have rr: "randrange (int (length p) - 1) (drop (Suc n) ds) = Some (Inr (?i, drop (n + 2) ds))"
    unfolding dr by (simp add: randrange_def)
  from len have "?i < length p - 1" by (simp add: nat_diff_distrib)
  then have i: "Suc ?i < length p" by simp
  from successively_nth[OF spp(5) i] have h: "has_edge ?g (p ! ?i) (p ! (?i + 1))" by simp
  with wf have "has_edge ?g (p ! (?i + 1)) (p ! ?i)" by (simp add: wf_graph_def)
  from remove_edge_succeeds[OF h this] obtain g1 where
    rm: "remove_edge ?g (p ! ?i) (p ! (?i + 1)) = Inr g1" ..
  then have rm': "remove_edge ?g (p ! ?i) (p ! Suc ?i) = Inr g1" by simp
  show ?thesis
    unfolding propose_def by (simp add: e0 rs sp rr rm' del: resample.simps)
qed

section \<open>The acceptance step\<close>

lemma spanning_tree_base_connected:
  assumes "spanning_tree T"
  shows "connected_graph (base_graph T)"
proof -
  from assms have nd: "set (nodes (adj T)) = set (nodes (base_graph T))"
    and sub: "edge_rel (adj T) \<subseteq> edge_rel (base_graph T)" and conn: "connected_graph (adj T)"
    by (simp_all add: spanning_tree_def)
  show ?thesis
    unfolding connected_graph_def
  proof (intro ballI)
    fix u v assume "u \<in> set (nodes (base_graph T))" "v \<in> set (nodes (base_graph T))"
    with conn nd have "(u, v) \<in> (edge_rel (adj T))\<^sup>*" unfolding connected_graph_def by blast
    with rtrancl_mono[OF sub] show "(u, v) \<in> (edge_rel (base_graph T))\<^sup>*" by blast
  qed
qed

lemma metropolis_step_accepted:
  assumes "propose T ds = Some (Inr (T', ds'))" "energy T = Inr current"
    "energy T' = Inr candidate" "u < min 1 (exp (candidate - current))"
  shows "metropolis_step energy T ds u = Some (Inr (Accepted T', ds'))"
  using assms by (simp add: metropolis_step_def accepted_def accept_probability_def)

lemma metropolis_step_rejected:
  assumes "propose T ds = Some (Inr (T', ds'))" "energy T = Inr current"
    "energy T' = Inr candidate" "\<not> u < min 1 (exp (candidate - current))" "reject T' = Inr T''"
  shows "metropolis_step energy T ds u = Some (Inr (Rejected T'', ds'))"
  using assms by (simp add: metropolis_step_def accepted_def accept_probability_def)

section \<open>Properties of the examples\<close>

lemma tri_propose: "propose tri_tree [0, 1, 0] = Some (Inr (tri_tree', []))"
  by code_simp

lemma wf_tri_path: "wf_graph tri_path"
  by (auto simp: wf_graph_def tri_path_def has_edge_def split: if_splits)

lemma edge_rel_tri_path: "edge_rel tri_path = {(0, 1), (1, 0), (1, 2), (2, 1)}"
  by (auto simp: edge_rel_def tri_path_def has_edge_def split: if_splits)

lemma connected_tri_path: "connected_graph tri_path"
proof -
  let ?E = "edge_rel tri_path"
  have e: "(0, 1) \<in> ?E\<^sup>*" "(1, 0) \<in> ?E\<^sup>*" "(1, 2) \<in> ?E\<^sup>*" "(2, 1) \<in> ?E\<^sup>*"
    unfolding edge_rel_tri_path by blast+
  from e have "(0, 2) \<in> ?E\<^sup>*" "(2, 0) \<in> ?E\<^sup>*" by (meson rtrancl_trans)+
  with e show ?thesis by (auto simp: connected_graph_def nodes_def tri_path_def)
qed

lemma cycle_tri: "cycle tri [0, 1, 2]"
  by (simp add: cycle_def walk_def tri_def has_edge_def)

lemma wf_tri: "wf_graph tri"
  by (auto simp: wf_graph_def tri_def has_edge_def split: if_splits)

lemma not_connected_two_isolated: "\<not> connected_graph two_isolated"
proof -
  have "edge_rel two_isolated = {}"
    by (auto simp: edge_rel_def two_isolated_def has_edge_def split: if_splits)
  then have "(0, 1) \<notin> (edge_rel two_isolated)\<^sup>*" by simp
  then show ?thesis by (auto simp: connected_graph_def two_isolated_def nodes_def)
qed

lemma bridges_tri_path: "bridges (edge_rel tri_path)"
  unfolding bridges_def edge_rel_tri_path
proof (intro allI impI)
  let ?E = "{(0::nat, 1::nat), (1, 0), (1, 2), (2, 1)}"
  fix a b :: nat
  assume "(a, b) \<in> ?E"
  then consider "a = 0 \<and> b = 1" | "a = 1 \<and> b = 0" | "a = 1 \<and> b = 2" | "a = 2 \<and> b = 1"
    by auto
  then show "(a, b) \<notin> (?E - {(a, b), (b, a)})\<^sup>*"
  proof cases
    case 1
    then have eq: "?E - {(a, b), (b, a)} = {(1, 2), (2, 1)}" by auto
    have "(0::nat, 1::nat) \<notin> {(1, 2), (2, 1)}\<^sup>*" by (auto elim: converse_rtranclE)
    with 1 show ?thesis unfolding eq by simp
  next
    case 2
    then have eq: "?E - {(a, b), (b, a)} = {(1, 2), (2, 1)}" by auto
    have "(1::nat, 0::nat) \<notin> {(1, 2), (2, 1)}\<^sup>*" by (auto elim: rtranclE)
    with 2 show ?thesis unfolding eq by simp
  next
    case 3
    then have eq: "?E - {(a, b), (b, a)} = {(0, 1), (1, 0)}" by auto
    have "(1::nat, 2::nat) \<notin> {(0, 1), (1, 0)}\<^sup>*" by (auto elim: rtranclE)
    with 3 show ?thesis unfolding eq by simp
  next
    case 4
    then have eq: "?E - {(a, b), (b, a)} = {(0, 1), (1, 0)}" by auto
    have "(2::nat, 1::nat) \<notin> {(0, 1), (1, 0)}\<^sup>*" by (auto elim: converse_rtranclE)
    with 4 show ?thesis unfolding eq by simp
  qed
qed

lemma spanning_tree_tri_tree: "spanning_tree tri_tree"
proof -
  have a: "adj tri_tree = tri_path" "base_graph tri_tree = tri"
    by (simp_all add: tri_tree_def new_tree_def)
  have sym: "sym (edge_rel tri_path)" using wf_tri_path by (rule sym_edge_rel)
  have ac: "acyclic_graph tri_path" using sym bridges_tri_path by (rule bridges_acyclic)
  have sub: "edge_rel tri_path \<subseteq> edge_rel tri"
    unfolding edge_rel_tri_path by (simp add: edge_rel_def tri_def has_edge_def)
  have ne: "number_of_edges tri_path = 2"
    by (simp add: number_of_edges_def edges_def tri_path_def)
  have nd: "set (nodes tri_path) = set (nodes tri)" "length (nodes tri_path) = 3"
    by (simp_all add: nodes_def tri_path_def tri_def)
  show ?thesis
    unfolding spanning_tree_def a
    using wf_tri_path wf_tri nd sub ne connected_tri_path ac by simp
qed

lemma neg_times_int64_wraps:
  "neg_times_int64 (2 ^ 62) 3 = 2 ^ 62" "neg_times_int64 (2 ^ 62) 4 = 0"
  by (simp_all add: neg_times_int64_def)

lemma minimum_spanning_tree_tri:
  "minimum_spanning_tree (\<lambda>e. 1 :: nat) tri = [(0, [1, 2]), (1, [0]), (2, [0])]"
  "minimum_spanning_tree (\<lambda>e. if e = (0, 1) then 5 else 1 :: nat) tri = [(0, [2]), (2, [0, 1]), (1, [2])]"
  by code_simp+

lemma minimum_spanning_tree_two_isolated:
  "minimum_spanning_tree (\<lambda>e. 1 :: nat) two_isolated = two_isolated"
  by code_simp

lemma sssp_tri_tree:
  "single_source_shortest_path_length (adj tri_tree) 0 = Inr [(0, 0), (1, 1), (2, 2)]"
  "single_source_shortest_path_length (adj tri_tree) 1 = Inr [(1, 0), (0, 1), (2, 1)]"
  "single_source_shortest_path_length (adj tri_tree) 2 = Inr [(2, 0), (1, 1), (0, 2)]"
  "single_source_shortest_path_length (adj tri_tree') 1 = Inr [(1, 0), (2, 1), (0, 2)]"
  "single_source_shortest_path_length (adj tri_tree') 2 = Inr [(2, 0), (1, 1), (0, 1)]"
  by code_simp+

lemma sssp_tri:
  "single_source_shortest_path_length (adj (new_tree tri tri)) 0 = Inr [(0, 0), (1, 1), (2, 1)]"
  by code_simp

lemma degree_examples:
  "degree (adj (new_tree tri tri)) = [(0, 2), (1, 2), (2, 2)]"
  "degree (adj (new_tree star4 star4)) = [(0, 3), (1, 1), (2, 1), (3, 1)]"
  "degree (adj (new_tree path4 star4)) = [(0, 1), (1, 2), (2, 2), (3, 1)]"
  by code_simp+

lemma reject_tri_tree':
  "reject tri_tree' = Inr (tri_tree'\<lparr>adj := [(0, [1]), (1, [2, 0]), (2, [1])]\<rparr>)"
  by code_simp

lemma exp_minus_one_le_half: "exp (- 1 :: real) \<le> 1 / 2"
proof -
  have "1 + 1 \<le> exp (1 :: real)" by (rule exp_ge_add_one_self)
  then have e2: "2 \<le> exp (1 :: real)" by simp
  have "exp (- 1 :: real) = 1 / exp 1" by (simp add: exp_minus inverse_eq_divide)
  also have "\<dots> \<le> 1 / 2" using e2 by (intro divide_left_mono) simp_all
  finally show ?thesis .
qed

lemma quarter_less_exp_minus_one: "1 / 4 < exp (- 1 :: real)"
proof -
  have "exp (1 :: real) \<le> 3" by (rule exp_le)
  then have "exp (1 :: real) < 4" by simp
  then have "1 / 4 < 1 / exp (1 :: real)" by (intro divide_strict_left_mono) simp_all
  then show ?thesis by (simp add: exp_minus inverse_eq_divide)
qed

lemma bdst_tri_tree_examples:
  "bdst neg_times_real tri_tree 2 1 1 = Inr (- 1)" "bdst neg_times_real tri_tree' 2 1 1 = Inr 0"
  "bdst neg_times_real tri_tree 1 1 1 = Inr 0" "bdst neg_times_real tri_tree' 1 1 1 = Inr (- 1)"
  unfolding bdst_def sssp_tri_tree by (simp_all add: neg_times_real_def)

lemma edge_rel_rejected:
  "edge_rel [(0, [1]), (1, [2, 0]), (2, [1])] = edge_rel (adj tri_tree)"
  by (auto simp: edge_rel_def has_edge_def tri_tree_def new_tree_def tri_path_def split: if_splits)

section \<open>The claims\<close>

text \<open>
  C1. One execution of \<^verbatim>\<open>propose\<close> on a spanning tree of the base graph, when it
  returns, leaves a spanning tree: the graph has one edge less than nodes, is connected
  and has no cycle. A sampler iteration ends with this tree (the proposal is accepted)
  or with the result of \<^verbatim>\<open>reject\<close> on it (the proposal is rejected), which returns and
  is a spanning tree too; so the value is a spanning tree after every completed
  iteration.
\<close>

theorem propose_keeps_spanning_tree:
  assumes st: "spanning_tree T" and pr: "propose T ds = Some (Inr (T', ds'))"
  shows "spanning_tree T' \<and> (\<exists>T''. reject T' = Inr T'' \<and> spanning_tree T'')"
proof -
  from st have wf: "wf_graph (adj T)" by (simp add: spanning_tree_def)
  from propose_reject_restores[OF wf pr] obtain T'' where
    "reject T' = Inr T''" "edge_rel (adj T'') = edge_rel (adj T)"
    "set (nodes (adj T'')) = set (nodes (adj T))" "base_graph T'' = base_graph T"
    "wf_graph (adj T'')" by blast
  with spanning_tree_cong[OF st this(5,2,3,4)] propose_swap_tree[OF st pr] show ?thesis by blast
qed


theorem propose_keeps_spanning_tree_witness:
  "spanning_tree tri_tree \<and> propose tri_tree [0, 1, 0] = Some (Inr (tri_tree', [])) \<and>
   spanning_tree tri_tree' \<and> (\<exists>T''. reject tri_tree' = Inr T'' \<and> spanning_tree T'')"
  using propose_keeps_spanning_tree[OF spanning_tree_tri_tree tri_propose]
    spanning_tree_tri_tree tri_propose by simp

text \<open>
  C2. On a well-formed tree graph, \<^verbatim>\<open>propose\<close> followed by \<^verbatim>\<open>reject\<close> returns a graph
  with the edges and the nodes that the tree had before \<^verbatim>\<open>propose\<close>, whatever the
  draws were.
\<close>

theorem propose_then_reject:
  assumes wf: "wf_graph (adj T)" and pr: "propose T ds = Some (Inr (T', ds'))"
  shows "\<exists>T''. reject T' = Inr T'' \<and> edge_rel (adj T'') = edge_rel (adj T) \<and>
           set (nodes (adj T'')) = set (nodes (adj T)) \<and> base_graph T'' = base_graph T"
  using propose_reject_restores[OF wf pr] by blast

theorem propose_then_reject_witness:
  "wf_graph (adj tri_tree) \<and> propose tri_tree [0, 1, 0] = Some (Inr (tri_tree', [])) \<and>
   (\<exists>T''. reject tri_tree' = Inr T'' \<and> edge_rel (adj T'') = edge_rel (adj tri_tree) \<and>
           set (nodes (adj T'')) = set (nodes (adj tri_tree)) \<and> base_graph T'' = base_graph tri_tree)"
proof -
  have wf: "wf_graph (adj tri_tree)" using wf_tri_path by (simp add: tri_tree_def new_tree_def)
  from propose_then_reject[OF wf tri_propose] wf tri_propose show ?thesis by simp
qed

text \<open>
  C3. \<^verbatim>\<open>ldst\<close> does not read the value passed to it: it reads the tree \<open>T\<close> of the
  enclosing \<^verbatim>\<open>LDST\<close>. With the star on four nodes as \<open>T\<close>, the bound 3, \<open>beta\<close> 1 and the
  path on four nodes as the value, it returns -1, the score of the star; the score of
  the path is 0. At \<open>beta\<close> 1 the product is the same for a float and for an integer.
\<close>

theorem ldst_reads_closure_tree:
  "ldst neg_times_real (new_tree star4 star4) 3 (new_tree path4 star4) 1 = - 1 \<and>
   ldst neg_times_real (new_tree path4 star4) 3 (new_tree path4 star4) 1 = 0 \<and>
   ldst neg_times_int64 (new_tree star4 star4) 3 (new_tree path4 star4) 1 = - 1 \<and>
   ldst neg_times_int64 (new_tree path4 star4) 3 (new_tree path4 star4) 1 = 0"
  by (simp add: ldst_def degree_examples neg_times_real_def neg_times_int64_def)

text \<open>
  C4. When \<^verbatim>\<open>propose\<close> returns, the edge \<open>(u_new, v_new)\<close> it has selected is an edge of
  the base graph that is not in the tree, and it was found by resampling: it is the
  draw number \<open>n\<close> from the list of all the edges of the base graph, and every draw
  before it gave an edge of the tree.
\<close>

theorem propose_new_edge:
  assumes wf: "wf_graph (adj T)" and pr: "propose T ds = Some (Inr (T', ds'))"
  shows "\<exists>un vn n. u_new T' = Some un \<and> v_new T' = Some vn \<and>
           (un, vn) \<in> set (edges (base_graph T)) \<and> \<not> has_edge (adj T) un vn \<and>
           n < length ds \<and> (un, vn) = choice (edges (base_graph T)) (ds ! n) \<and>
           (\<forall>j<n. choice (edges (base_graph T)) (ds ! j) \<in> edge_rel (adj T))"
proof -
  from pr obtain e0 es un vn ds1 p i g1 where
    e0: "edges (adj T) = e0 # es" and
    rs: "resample (adj T) (base_graph T) e0 ds = Some (Inr ((un, vn), ds1))" and
    T': "T' = T\<lparr>adj := add_edge g1 un vn, u_new := Some un, v_new := Some vn, path := Some p,
            u_old := Some (p ! i), v_old := Some (p ! (i + 1))\<rparr>"
    by (rule propose_Inr)
  from e0 have "(fst e0, snd e0) \<in> set (edges (adj T))" by simp
  with wf have "has_edge (adj T) (fst e0) (snd e0)"
    by (intro edges_has_edge) (simp_all add: wf_graph_def)
  from resample_Inr[OF rs this] obtain n where n: "n < length ds"
    "(un, vn) = choice (edges (base_graph T)) (ds ! n)" "edges (base_graph T) \<noteq> []"
    "\<not> has_edge (adj T) un vn"
    "\<forall>j<n. has_edge (adj T) (fst (choice (edges (base_graph T)) (ds ! j)))
                           (snd (choice (edges (base_graph T)) (ds ! j)))"
    by auto
  from n(2,3) have "(un, vn) \<in> set (edges (base_graph T))" by (simp add: choice_mem)
  moreover from n(5) have "\<forall>j<n. choice (edges (base_graph T)) (ds ! j) \<in> edge_rel (adj T)"
    by (simp add: edge_rel_def case_prod_beta)
  ultimately show ?thesis using n(1,2,4) T' by auto
qed

theorem propose_new_edge_witness:
  "propose tri_tree [0, 1, 0] = Some (Inr (tri_tree', [])) \<and>
   (\<exists>un vn n. u_new tri_tree' = Some un \<and> v_new tri_tree' = Some vn \<and>
           (un, vn) \<in> set (edges (base_graph tri_tree)) \<and> \<not> has_edge (adj tri_tree) un vn \<and>
           n < length [0, 1, 0 :: nat] \<and> (un, vn) = choice (edges (base_graph tri_tree)) ([0, 1, 0] ! n) \<and>
           (\<forall>j<n. choice (edges (base_graph tri_tree)) ([0, 1, 0] ! j) \<in> edge_rel (adj tri_tree)))"
proof -
  have wf: "wf_graph (adj tri_tree)" using wf_tri_path by (simp add: tri_tree_def new_tree_def)
  from propose_new_edge[OF wf tri_propose] tri_propose show ?thesis by simp
qed

text \<open>
  C5. When \<^verbatim>\<open>propose\<close> returns, the path it has stored is the path from \<open>u_new\<close> to
  \<open>v_new\<close> that \<^verbatim>\<open>nx.shortest_path\<close> finds in the tree as it was before the proposal,
  the index \<open>i\<close> is a draw reduced to the range from 0 to the length of the path minus
  2, and the removed edge \<open>(u_old, v_old)\<close> is the edge of the tree from the node \<open>i\<close>
  of the path to the next.
\<close>

theorem propose_old_edge_on_path:
  assumes pr: "propose T ds = Some (Inr (T', ds'))"
  shows "\<exists>un vn p i. u_new T' = Some un \<and> v_new T' = Some vn \<and> path T' = Some p \<and>
           shortest_path (adj T) un vn = Inr p \<and> hd p = un \<and> last p = vn \<and>
           successively (has_edge (adj T)) p \<and>
           i \<le> length p - 2 \<and> Suc i < length p \<and> (\<exists>r \<in> set ds. i = r mod (length p - 1)) \<and>
           u_old T' = Some (p ! i) \<and> v_old T' = Some (p ! (i + 1)) \<and>
           has_edge (adj T) (p ! i) (p ! (i + 1))"
proof -
  from pr obtain e0 es un vn ds1 p i g1 where
    rs: "resample (adj T) (base_graph T) e0 ds = Some (Inr ((un, vn), ds1))" and
    sp: "shortest_path (adj T) un vn = Inr p" and
    rr: "randrange (int (length p) - 1) ds1 = Some (Inr (i, ds'))" and
    T': "T' = T\<lparr>adj := add_edge g1 un vn, u_new := Some un, v_new := Some vn, path := Some p,
            u_old := Some (p ! i), v_old := Some (p ! (i + 1))\<rparr>"
    by (rule propose_Inr)
  from randrange_Inr[OF rr] obtain r where r: "0 < int (length p) - 1" "int i < int (length p) - 1"
    "ds1 = r # ds'" "i = r mod nat (int (length p) - 1)" by blast
  then have i: "Suc i < length p" "i \<le> length p - 2" by auto
  have "nat (int (length p) - 1) = length p - 1" by simp
  with r have im: "i = r mod (length p - 1)" by simp
  have "set ds1 \<subseteq> set ds"
  proof (cases "has_edge (adj T) (fst e0) (snd e0)")
    case True
    from resample_Inr[OF rs True] show ?thesis by (auto dest: in_set_dropD)
  next
    case False
    with rs show ?thesis by (cases e0) simp
  qed
  with r(3) have rin: "r \<in> set ds" by auto
  note spp = shortest_path_Inr[OF sp]
  from successively_nth[OF spp(5) i(1)] have "has_edge (adj T) (p ! i) (p ! (i + 1))" by simp
  with spp sp i im rin T' show ?thesis by auto
qed

theorem propose_old_edge_on_path_witness:
  "propose tri_tree [0, 1, 0] = Some (Inr (tri_tree', [])) \<and>
   (\<exists>un vn p i. u_new tri_tree' = Some un \<and> v_new tri_tree' = Some vn \<and> path tri_tree' = Some p \<and>
           shortest_path (adj tri_tree) un vn = Inr p \<and> hd p = un \<and> last p = vn \<and>
           successively (has_edge (adj tri_tree)) p \<and>
           i \<le> length p - 2 \<and> Suc i < length p \<and> (\<exists>r. r \<in> set [0, 1, 0 :: nat] \<and> i = r mod (length p - 1)) \<and>
           u_old tri_tree' = Some (p ! i) \<and> v_old tri_tree' = Some (p ! (i + 1)) \<and>
           has_edge (adj tri_tree) (p ! i) (p ! (i + 1)))"
  using propose_old_edge_on_path[OF tri_propose] tri_propose by (simp add: Bex_def)

text \<open>
  C6. For a tree value (a well-formed connected graph) and a root that is one of its
  nodes, \<^verbatim>\<open>bdst\<close> returns the product \<^verbatim>\<open>-beta * n\<close>, where \<open>n\<close> is the number of the nodes
  whose distance from the root is greater than \<open>k\<close>.
\<close>

theorem bdst_counts_deep_nodes:
  assumes wf: "wf_graph (adj V)" and conn: "connected_graph (adj V)" and rt: "rt \<in> set (nodes (adj V))"
  shows "bdst neg_times V rt k beta =
           Inr (neg_times beta (card {v \<in> set (nodes (adj V)). k < int (distance (adj V) rt v)}))"
proof -
  have "{v. (rt, v) \<in> (edge_rel (adj V))\<^sup>* \<and> k < int (distance (adj V) rt v)} =
        {v \<in> set (nodes (adj V)). k < int (distance (adj V) rt v)}"
  proof (intro equalityI subsetI)
    fix v assume "v \<in> {v. (rt, v) \<in> (edge_rel (adj V))\<^sup>* \<and> k < int (distance (adj V) rt v)}"
    then have "(rt, v) \<in> (edge_rel (adj V))\<^sup>*" "k < int (distance (adj V) rt v)" by simp_all
    with reach_node[OF wf_graph_closed[OF wf] rt this(1)]
    show "v \<in> {v \<in> set (nodes (adj V)). k < int (distance (adj V) rt v)}" by simp
  next
    fix v assume "v \<in> {v \<in> set (nodes (adj V)). k < int (distance (adj V) rt v)}"
    then have v: "v \<in> set (nodes (adj V))" "k < int (distance (adj V) rt v)" by simp_all
    from conn rt v(1) have "(rt, v) \<in> (edge_rel (adj V))\<^sup>*" unfolding connected_graph_def by blast
    with v(2) show "v \<in> {v. (rt, v) \<in> (edge_rel (adj V))\<^sup>* \<and> k < int (distance (adj V) rt v)}"
      by simp
  qed
  with bdst_score[OF wf_graph_closed[OF wf] rt, of neg_times k beta] show ?thesis by simp
qed

theorem bdst_counts_deep_nodes_witness:
  "wf_graph (adj tri_tree) \<and> connected_graph (adj tri_tree) \<and> 0 \<in> set (nodes (adj tri_tree)) \<and>
   bdst neg_times_real tri_tree 0 0 (1 / 2) = Inr (- 1) \<and>
   bdst neg_times_real tri_tree 0 0 (1 / 2) =
     Inr (neg_times_real (1 / 2) (card {v \<in> set (nodes (adj tri_tree)). 0 < int (distance (adj tri_tree) 0 v)})) \<and>
   bdst neg_times_int64 tri_tree 0 0 (2 ^ 63 - 1) = Inr 2 \<and>
   bdst neg_times_int64 tri_tree 0 0 (2 ^ 63 - 1) =
     Inr (neg_times_int64 (2 ^ 63 - 1) (card {v \<in> set (nodes (adj tri_tree)). 0 < int (distance (adj tri_tree) 0 v)}))"
proof -
  have a: "adj tri_tree = tri_path" by (simp add: tri_tree_def new_tree_def)
  have wf: "wf_graph (adj tri_tree)" and c: "connected_graph (adj tri_tree)"
    and n: "0 \<in> set (nodes (adj tri_tree))"
    unfolding a using wf_tri_path connected_tri_path by (simp_all add: nodes_def tri_path_def)
  have v: "bdst neg_times_real tri_tree 0 0 (1 / 2) = Inr (- 1)"
    unfolding bdst_def sssp_tri_tree by (simp add: neg_times_real_def)
  have w: "bdst neg_times_int64 tri_tree 0 0 (2 ^ 63 - 1) = Inr 2"
    unfolding bdst_def sssp_tri_tree by (simp add: neg_times_int64_def)
  from bdst_counts_deep_nodes[OF wf c n, of neg_times_real 0 "1 / 2"]
    bdst_counts_deep_nodes[OF wf c n, of neg_times_int64 0 "2 ^ 63 - 1"] wf c n v w
  show ?thesis by simp
qed

text \<open>
  C7. In an iteration of the sampler in which the proposal returns the candidate \<open>T'\<close>
  and the energy is defined before and after, the draws from the interval from 0 to 1
  on which the candidate is accepted are those below \<open>min(1, exp(delta))\<close>, an interval of
  that length, so that a uniform draw accepts with that probability. When the energy of
  the candidate is greater than the energy of the current tree, every draw accepts. On
  every other draw the step rejects, and the tree that \<^verbatim>\<open>reject\<close> leaves has the edge
  set and the nodes of the tree before the proposal.
\<close>

theorem metropolis_step_acceptance:
  assumes wf: "wf_graph (adj T)" and pr: "propose T ds = Some (Inr (T', ds'))"
    and e0: "energy T = Inr current" and e1: "energy T' = Inr candidate"
  shows "{u \<in> {0..<1}. metropolis_step energy T ds u = Some (Inr (Accepted T', ds'))} =
           {0..<min 1 (exp (candidate - current))} \<and>
         (current < candidate \<longrightarrow>
            (\<forall>u \<in> {0..<1}. metropolis_step energy T ds u = Some (Inr (Accepted T', ds')))) \<and>
         (\<exists>T''. reject T' = Inr T'' \<and> edge_rel (adj T'') = edge_rel (adj T) \<and>
                 set (nodes (adj T'')) = set (nodes (adj T)) \<and>
                 (\<forall>u \<in> {min 1 (exp (candidate - current))..<1}.
                    metropolis_step energy T ds u = Some (Inr (Rejected T'', ds'))))"
proof -
  let ?p = "min 1 (exp (candidate - current))"
  have acc: "metropolis_step energy T ds u = Some (Inr (Accepted T', ds'))" if "u < ?p" for u
    using pr e0 e1 that by (rule metropolis_step_accepted)
  from propose_reject_restores[OF wf pr] obtain T'' where
    rj: "reject T' = Inr T''" and er: "edge_rel (adj T'') = edge_rel (adj T)"
    and nd: "set (nodes (adj T'')) = set (nodes (adj T))" by blast
  have rej: "metropolis_step energy T ds u = Some (Inr (Rejected T'', ds'))" if "\<not> u < ?p" for u
    using pr e0 e1 that rj by (rule metropolis_step_rejected)
  have p1: "?p \<le> 1" by simp
  have "{u \<in> {0..<1}. metropolis_step energy T ds u = Some (Inr (Accepted T', ds'))} = {0..<?p}"
  proof (intro equalityI subsetI)
    fix u assume "u \<in> {u \<in> {0..<1}. metropolis_step energy T ds u = Some (Inr (Accepted T', ds'))}"
    then have u: "0 \<le> u" and a: "metropolis_step energy T ds u = Some (Inr (Accepted T', ds'))"
      by simp_all
    have "u < ?p"
    proof (rule ccontr)
      assume "\<not> u < ?p"
      from rej[OF this] a show False by simp
    qed
    with u show "u \<in> {0..<?p}" by simp
  next
    fix u assume "u \<in> {0..<?p}"
    then have u: "0 \<le> u" "u < ?p" by simp_all
    with p1 have "u < 1" by linarith
    with u acc[OF u(2)]
    show "u \<in> {u \<in> {0..<1}. metropolis_step energy T ds u = Some (Inr (Accepted T', ds'))}" by simp
  qed
  moreover have "\<forall>u \<in> {0..<1}. metropolis_step energy T ds u = Some (Inr (Accepted T', ds'))"
    if "current < candidate"
  proof
    fix u :: real assume "u \<in> {0..<1}"
    moreover from that have "?p = 1" by simp
    ultimately show "metropolis_step energy T ds u = Some (Inr (Accepted T', ds'))"
      by (intro acc) simp
  qed
  moreover have "\<forall>u \<in> {?p..<1}. metropolis_step energy T ds u = Some (Inr (Rejected T'', ds'))"
  proof
    fix u assume "u \<in> {?p..<1}"
    then have "?p \<le> u" by (simp only: atLeastLessThan_iff)
    then have "\<not> u < ?p" by (simp only: not_less)
    then show "metropolis_step energy T ds u = Some (Inr (Rejected T'', ds'))" by (rule rej)
  qed
  ultimately show ?thesis using rj er nd by blast
qed

theorem metropolis_step_acceptance_witness:
  "wf_graph (adj tri_tree) \<and> propose tri_tree [0, 1, 0] = Some (Inr (tri_tree', [])) \<and>
   bdst neg_times_real tri_tree 2 1 1 = Inr (- 1) \<and> bdst neg_times_real tri_tree' 2 1 1 = Inr 0 \<and>
   metropolis_step (\<lambda>V. bdst neg_times_real V 2 1 1) tri_tree [0, 1, 0] (9 / 10) =
     Some (Inr (Accepted tri_tree', [])) \<and>
   bdst neg_times_real tri_tree 1 1 1 = Inr 0 \<and> bdst neg_times_real tri_tree' 1 1 1 = Inr (- 1) \<and>
   metropolis_step (\<lambda>V. bdst neg_times_real V 1 1 1) tri_tree [0, 1, 0] (1 / 4) =
     Some (Inr (Accepted tri_tree', [])) \<and>
   metropolis_step (\<lambda>V. bdst neg_times_real V 1 1 1) tri_tree [0, 1, 0] (1 / 2) =
     Some (Inr (Rejected (tri_tree'\<lparr>adj := [(0, [1]), (1, [2, 0]), (2, [1])]\<rparr>), [])) \<and>
   edge_rel [(0, [1]), (1, [2, 0]), (2, [1])] = edge_rel (adj tri_tree)"
proof -
  have wf: "wf_graph (adj tri_tree)" using wf_tri_path by (simp add: tri_tree_def new_tree_def)
  note up = bdst_tri_tree_examples(1,2) and down = bdst_tri_tree_examples(3,4)
  let ?up = "\<lambda>V. bdst neg_times_real V 2 1 1" and ?down = "\<lambda>V. bdst neg_times_real V 1 1 1"
  have m: "min 1 (exp (- 1 - 0 :: real)) = exp (- 1)" by simp
  note t1 = metropolis_step_acceptance[of tri_tree "[0, 1, 0]" tri_tree' "[]" ?up "- 1" 0,
      OF wf tri_propose up]
  note t2 = metropolis_step_acceptance[of tri_tree "[0, 1, 0]" tri_tree' "[]" ?down 0 "- 1",
      OF wf tri_propose down]
  from t1 have "\<forall>u \<in> {0..<1}. metropolis_step ?up tri_tree [0, 1, 0] u = Some (Inr (Accepted tri_tree', []))"
    by simp
  then have a1: "metropolis_step ?up tri_tree [0, 1, 0] (9 / 10) = Some (Inr (Accepted tri_tree', []))"
    by simp
  from t2 have s: "{u \<in> {0..<1}. metropolis_step ?down tri_tree [0, 1, 0] u = Some (Inr (Accepted tri_tree', []))} =
      {0..<exp (- 1)}" unfolding m by (rule conjunct1)
  have "(1 / 4 :: real) \<in> {0..<exp (- 1)}" using quarter_less_exp_minus_one by simp
  then have "(1 / 4 :: real) \<in> {u \<in> {0..<1}. metropolis_step ?down tri_tree [0, 1, 0] u = Some (Inr (Accepted tri_tree', []))}"
    unfolding s .
  then have a2: "metropolis_step ?down tri_tree [0, 1, 0] (1 / 4) = Some (Inr (Accepted tri_tree', []))"
    by simp
  from t2 have "\<forall>u \<in> {exp (- 1)..<1}. metropolis_step ?down tri_tree [0, 1, 0] u =
      Some (Inr (Rejected (tri_tree'\<lparr>adj := [(0, [1]), (1, [2, 0]), (2, [1])]\<rparr>), []))"
    unfolding m reject_tri_tree' by blast
  moreover have "(1 / 2 :: real) \<in> {exp (- 1)..<1}" using exp_minus_one_le_half by simp
  ultimately have a3: "metropolis_step ?down tri_tree [0, 1, 0] (1 / 2) =
      Some (Inr (Rejected (tri_tree'\<lparr>adj := [(0, [1]), (1, [2, 0]), (2, [1])]\<rparr>), []))"
    by (rule bspec)
  from wf tri_propose up down a1 a2 a3 edge_rel_rejected show ?thesis by (intro conjI)
qed

text \<open>
  C8, as stated, fails: the triangle is a cycle, not a tree, and both energy functions
  return a score on it.
\<close>

theorem energy_on_cycle_counterexample:
  "cycle tri [0, 1, 2] \<and> \<not> acyclic_graph tri \<and>
   bdst neg_times_real (new_tree tri tri) 0 0 1 = Inr (- 2) \<and>
   ldst neg_times_real (new_tree tri tri) 2 (new_tree tri tri) 1 = - 3"
proof -
  have "bdst neg_times_real (new_tree tri tri) 0 0 1 = Inr (- 2)"
    unfolding bdst_def sssp_tri by (simp add: neg_times_real_def)
  moreover have "ldst neg_times_real (new_tree tri tri) 2 (new_tree tri tri) 1 = - 3"
    unfolding ldst_def degree_examples by (simp add: neg_times_real_def)
  moreover have "\<not> acyclic_graph tri" using cycle_tri unfolding acyclic_graph_def by blast
  ultimately show ?thesis using cycle_tri by simp
qed

text \<open>
  C8, amended. The energy functions do not check that the value is a tree and raise no
  error of their own. On every well-formed graph, tree or not, \<^verbatim>\<open>bdst\<close> returns the
  product \<^verbatim>\<open>-beta * n\<close>, \<open>n\<close> being the number of the nodes that the root reaches at a
  distance greater than \<open>k\<close>, when the root is a node of the value, and raises the
  \<^verbatim>\<open>KeyError\<close> of the search when it is not; \<^verbatim>\<open>ldst\<close>, called on the value of its own
  stochastic, returns the product for the number of the nodes whose degree is at least
  \<open>d\<close>.
\<close>

theorem energy_without_tree_check:
  assumes wf: "wf_graph (adj V)"
  shows "bdst neg_times V rt k beta =
           (if rt \<in> set (nodes (adj V))
            then Inr (neg_times beta (card {v. (rt, v) \<in> (edge_rel (adj V))\<^sup>* \<and>
                                              k < int (distance (adj V) rt v)}))
            else Inl KeyError) \<and>
         ldst neg_times V d V beta =
           neg_times beta (card {n \<in> set (nodes (adj V)). d \<le> int (deg (adj V) n)})"
  using bdst_score[OF wf_graph_closed[OF wf], of rt neg_times k beta]
    bdst_not_node[of rt V neg_times k beta] ldst_score[OF wf, of neg_times d V beta]
  by simp

theorem energy_without_tree_check_witness:
  "wf_graph (adj (new_tree tri tri)) \<and> \<not> acyclic_graph (adj (new_tree tri tri)) \<and>
   bdst neg_times_real (new_tree tri tri) 0 0 1 =
     (if 0 \<in> set (nodes (adj (new_tree tri tri)))
      then Inr (neg_times_real 1 (card {v. (0, v) \<in> (edge_rel (adj (new_tree tri tri)))\<^sup>* \<and>
                                        0 < int (distance (adj (new_tree tri tri)) 0 v)}))
      else Inl KeyError) \<and>
   ldst neg_times_real (new_tree tri tri) 2 (new_tree tri tri) 1 =
     neg_times_real 1 (card {n \<in> set (nodes (adj (new_tree tri tri))). 2 \<le> int (deg (adj (new_tree tri tri)) n)}) \<and>
   bdst neg_times_real (new_tree tri tri) 0 0 1 = Inr (- 2) \<and>
   ldst neg_times_real (new_tree tri tri) 2 (new_tree tri tri) 1 = - 3 \<and>
   bdst neg_times_real (new_tree tri tri) 7 0 1 = Inl KeyError"
proof -
  have a: "adj (new_tree tri tri) = tri" by (simp add: new_tree_def)
  have wf: "wf_graph (adj (new_tree tri tri))" unfolding a by (rule wf_tri)
  have n: "\<not> acyclic_graph (adj (new_tree tri tri))"
    unfolding a using cycle_tri unfolding acyclic_graph_def by blast
  have b: "bdst neg_times_real (new_tree tri tri) 0 0 1 = Inr (- 2)"
    unfolding bdst_def sssp_tri by (simp add: neg_times_real_def)
  have l: "ldst neg_times_real (new_tree tri tri) 2 (new_tree tri tri) 1 = - 3"
    unfolding ldst_def degree_examples by (simp add: neg_times_real_def)
  have m: "(0 :: nat) \<in> set (nodes (adj (new_tree tri tri)))" "(7 :: nat) \<notin> set (nodes (adj (new_tree tri tri)))"
    unfolding a by (simp_all add: nodes_def tri_def)
  note t = energy_without_tree_check[OF wf, of neg_times_real _ 0 1 2]
  from t[of 0] have t0: "bdst neg_times_real (new_tree tri tri) 0 0 1 =
     (if 0 \<in> set (nodes (adj (new_tree tri tri)))
      then Inr (neg_times_real 1 (card {v. (0, v) \<in> (edge_rel (adj (new_tree tri tri)))\<^sup>* \<and>
                                        0 < int (distance (adj (new_tree tri tri)) 0 v)}))
      else Inl KeyError)"
    and tl: "ldst neg_times_real (new_tree tri tri) 2 (new_tree tri tri) 1 =
     neg_times_real 1 (card {n \<in> set (nodes (adj (new_tree tri tri))). 2 \<le> int (deg (adj (new_tree tri tri)) n)})"
    by simp_all
  from t[of 7] m(2) have t7: "bdst neg_times_real (new_tree tri tri) 7 0 1 = Inl KeyError" by simp
  from wf n t0 tl b l t7 show ?thesis by (intro conjI)
qed

text \<open>
  C9, as stated, fails: on the graph of two nodes and no edge, which is not connected,
  \<^verbatim>\<open>BDST\<close> and \<^verbatim>\<open>LDST\<close> return the stochastic.
\<close>

theorem construction_on_disconnected_counterexample:
  "\<not> connected_graph two_isolated \<and>
   BDST neg_times_real (\<lambda>e. 1 :: nat) two_isolated 0 5 1 =
     Inr ((new_tree two_isolated two_isolated)\<lparr>attr_root := Some 0, attr_k := Some 5\<rparr>) \<and>
   LDST neg_times_real (\<lambda>e. 1 :: nat) two_isolated 3 1 =
     Inr ((new_tree two_isolated two_isolated)\<lparr>attr_d := Some 3\<rparr>)"
proof -
  have s: "single_source_shortest_path_length two_isolated 0 = Inr [(0, 0)]" by code_simp
  have "BDST neg_times_real (\<lambda>e. 1 :: nat) two_isolated 0 5 1 =
     Inr ((new_tree two_isolated two_isolated)\<lparr>attr_root := Some 0, attr_k := Some 5\<rparr>)"
    unfolding BDST_def bdst_def minimum_spanning_tree_two_isolated
    by (simp add: new_tree_def s)
  moreover have "LDST neg_times_real (\<lambda>e. 1 :: nat) two_isolated 3 1 =
     Inr ((new_tree two_isolated two_isolated)\<lparr>attr_d := Some 3\<rparr>)"
    unfolding LDST_def minimum_spanning_tree_two_isolated by simp
  ultimately show ?thesis using not_connected_two_isolated by simp
qed

text \<open>
  C9, amended. \<^verbatim>\<open>BDST\<close> and \<^verbatim>\<open>LDST\<close> do not check that the base graph is connected. On
  every base graph that is not connected \<^verbatim>\<open>LDST\<close> returns the stochastic, whose value is
  \<^verbatim>\<open>nx.minimum_spanning_tree(G)\<close>; \<^verbatim>\<open>BDST\<close> returns it when the root is a node of that
  value, and raises the \<^verbatim>\<open>KeyError\<close> of the breadth-first search when it is not. The
  value returned is not a spanning tree of the base graph.
\<close>

theorem construction_without_connectivity_check:
  assumes nc: "\<not> connected_graph G"
  shows "LDST neg_times weight G d beta =
           Inr ((new_tree (minimum_spanning_tree weight G) G)\<lparr>attr_d := Some d\<rparr>) \<and>
         \<not> spanning_tree ((new_tree (minimum_spanning_tree weight G) G)\<lparr>attr_d := Some d\<rparr>) \<and>
         BDST neg_times weight G rt k beta =
           (if rt \<in> set (nodes (minimum_spanning_tree weight G))
            then Inr ((new_tree (minimum_spanning_tree weight G) G)\<lparr>attr_root := Some rt, attr_k := Some k\<rparr>)
            else Inl KeyError) \<and>
         \<not> spanning_tree
             ((new_tree (minimum_spanning_tree weight G) G)\<lparr>attr_root := Some rt, attr_k := Some k\<rparr>)"
proof -
  let ?M = "minimum_spanning_tree weight G"
  let ?T = "(new_tree ?M G)\<lparr>attr_root := Some rt, attr_k := Some k\<rparr>"
  let ?L = "(new_tree ?M G)\<lparr>attr_d := Some d\<rparr>"
  have a: "adj ?T = ?M" "base_graph ?T = G" "base_graph ?L = G" by (simp_all add: new_tree_def)
  have cl: "\<forall>u v. has_edge (adj ?T) u v \<longrightarrow> v \<in> set (nodes (adj ?T))"
    unfolding a by (rule closed_minimum_spanning_tree)
  have "BDST neg_times weight G rt k beta = Inr ?T" if "rt \<in> set (nodes ?M)"
    using bdst_score[OF cl, of rt neg_times k beta] that by (simp add: BDST_def a)
  moreover have "BDST neg_times weight G rt k beta = Inl KeyError" if "rt \<notin> set (nodes ?M)"
    using bdst_not_node[of rt ?T neg_times k beta] that by (simp add: BDST_def a)
  moreover have "\<not> spanning_tree ?T"
  proof
    assume "spanning_tree ?T"
    from spanning_tree_base_connected[OF this] nc show False unfolding a by simp
  qed
  moreover have "\<not> spanning_tree ?L"
  proof
    assume "spanning_tree ?L"
    from spanning_tree_base_connected[OF this] nc show False unfolding a by simp
  qed
  moreover have "LDST neg_times weight G d beta = Inr ?L" by (simp add: LDST_def)
  ultimately show ?thesis by simp
qed

theorem construction_without_connectivity_check_witness:
  "\<not> connected_graph two_isolated \<and>
   minimum_spanning_tree (\<lambda>e. 1 :: nat) two_isolated = two_isolated \<and>
   LDST neg_times_real (\<lambda>e. 1 :: nat) two_isolated 3 1 =
     Inr ((new_tree two_isolated two_isolated)\<lparr>attr_d := Some 3\<rparr>) \<and>
   \<not> spanning_tree ((new_tree two_isolated two_isolated)\<lparr>attr_d := Some 3\<rparr>) \<and>
   BDST neg_times_real (\<lambda>e. 1 :: nat) two_isolated 0 5 1 =
     Inr ((new_tree two_isolated two_isolated)\<lparr>attr_root := Some 0, attr_k := Some 5\<rparr>) \<and>
   \<not> spanning_tree ((new_tree two_isolated two_isolated)\<lparr>attr_root := Some 0, attr_k := Some 5\<rparr>) \<and>
   BDST neg_times_real (\<lambda>e. 1 :: nat) two_isolated 7 5 1 = Inl KeyError"
proof -
  note m = minimum_spanning_tree_two_isolated
  have n: "(0 :: nat) \<in> set (nodes two_isolated)" "(7 :: nat) \<notin> set (nodes two_isolated)"
    by (simp_all add: nodes_def two_isolated_def)
  note t = construction_without_connectivity_check[OF not_connected_two_isolated,
      of neg_times_real "\<lambda>e. 1 :: nat" 3 1 _ 5, unfolded m]
  from t[of 0] n(1) have t0:
    "LDST neg_times_real (\<lambda>e. 1 :: nat) two_isolated 3 1 =
       Inr ((new_tree two_isolated two_isolated)\<lparr>attr_d := Some 3\<rparr>)"
    "\<not> spanning_tree ((new_tree two_isolated two_isolated)\<lparr>attr_d := Some 3\<rparr>)"
    "BDST neg_times_real (\<lambda>e. 1 :: nat) two_isolated 0 5 1 =
       Inr ((new_tree two_isolated two_isolated)\<lparr>attr_root := Some 0, attr_k := Some 5\<rparr>)"
    "\<not> spanning_tree ((new_tree two_isolated two_isolated)\<lparr>attr_root := Some 0, attr_k := Some 5\<rparr>)"
    by simp_all
  from t[of 7] n(2) have t7: "BDST neg_times_real (\<lambda>e. 1 :: nat) two_isolated 7 5 1 = Inl KeyError"
    by simp
  from not_connected_two_isolated m t0 t7 show ?thesis by (intro conjI)
qed

text \<open>
  C10. When \<^verbatim>\<open>propose\<close> returns, the removed edge was an edge of the tree as it was
  before and the added edge was not, so the two are different edges. The
  \<^verbatim>\<open>remove_edge\<close> of \<^verbatim>\<open>propose\<close> found its edge; in \<^verbatim>\<open>reject\<close>, the edge to remove is
  present after the old edge has been added again, \<^verbatim>\<open>reject\<close> returns, and in its
  result the old edge is present and the new edge is not.
\<close>

theorem propose_reject_edges_present:
  assumes pr: "propose T ds = Some (Inr (T', ds'))"
  shows "\<exists>uo vo un vn g1 T''.
           u_old T' = Some uo \<and> v_old T' = Some vo \<and> u_new T' = Some un \<and> v_new T' = Some vn \<and>
           has_edge (adj T) uo vo \<and> \<not> has_edge (adj T) un vn \<and> {uo, vo} \<noteq> {un, vn} \<and>
           remove_edge (adj T) uo vo = Inr g1 \<and> adj T' = add_edge g1 un vn \<and>
           has_edge (add_edge (adj T') uo vo) un vn \<and> has_edge (add_edge (adj T') uo vo) vn un \<and>
           reject T' = Inr T'' \<and>
           has_edge (adj T'') uo vo \<and> has_edge (adj T'') vo uo \<and> \<not> has_edge (adj T'') un vn"
proof -
  from pr obtain uo vo un vn g1 p where s:
    "u_old T' = Some uo" "v_old T' = Some vo" "u_new T' = Some un" "v_new T' = Some vn"
    "has_edge (adj T) uo vo" "has_edge (adj T) vo uo" "\<not> has_edge (adj T) un vn"
    "remove_edge (adj T) uo vo = Inr g1" "adj T' = add_edge g1 un vn"
    by (rule propose_swap)
  have ne: "{uo, vo} \<noteq> {un, vn}" using s(5,6,7) by (auto simp: doubleton_eq_iff)
  let ?g2 = "add_edge (adj T') uo vo"
  have h: "has_edge ?g2 un vn" "has_edge ?g2 vn un"
    by (simp_all add: has_edge_add_edge s(9))
  from remove_edge_succeeds[OF h] obtain g3 where g3: "remove_edge ?g2 un vn = Inr g3" by blast
  then have rj: "reject T' = Inr (T'\<lparr>adj := g3\<rparr>)" by (simp add: reject_def s)
  have "has_edge g3 uo vo" "has_edge g3 vo uo" "\<not> has_edge g3 un vn"
    using ne by (auto simp: remove_edge_Inr(3)[OF g3] has_edge_add_edge doubleton_eq_iff)
  with s ne h rj show ?thesis by simp
qed

theorem propose_reject_edges_present_witness:
  "propose tri_tree [0, 1, 0] = Some (Inr (tri_tree', [])) \<and>
   (\<exists>uo vo un vn g1 T''.
           u_old tri_tree' = Some uo \<and> v_old tri_tree' = Some vo \<and>
           u_new tri_tree' = Some un \<and> v_new tri_tree' = Some vn \<and>
           has_edge (adj tri_tree) uo vo \<and> \<not> has_edge (adj tri_tree) un vn \<and> {uo, vo} \<noteq> {un, vn} \<and>
           remove_edge (adj tri_tree) uo vo = Inr g1 \<and> adj tri_tree' = add_edge g1 un vn \<and>
           has_edge (add_edge (adj tri_tree') uo vo) un vn \<and>
           has_edge (add_edge (adj tri_tree') uo vo) vn un \<and>
           reject tri_tree' = Inr T'' \<and>
           has_edge (adj T'') uo vo \<and> has_edge (adj T'') vo uo \<and> \<not> has_edge (adj T'') un vn)"
  using propose_reject_edges_present[OF tri_propose] tri_propose by simp

end
